theory Spec2Isabelle
  imports Complex_Main "HOL-Library.AList" "HOL-Library.Log_Nat"
begin

section \<open>Schema utilities of the DataVerser frontend (schemaUtils.js)\<close>

text \<open>
  The development embeds the four exported functions of
  \<^verbatim>\<open>src/dynamic-etl-frontend-v2/src/utils/schemaUtils.js\<close>:
  \<^verbatim>\<open>normalizeFieldsArray\<close>, \<^verbatim>\<open>buildFieldMap\<close>, \<^verbatim>\<open>diffSchemas\<close>, \<^verbatim>\<open>computeStability\<close>
  and \<^verbatim>\<open>fieldTimeline\<close>.

  Conventions of the embedding.
  \<^item> A JavaScript string is a \<^typ>\<open>string\<close>: the bytes of its UTF-8 encoding. Equality of
    well-formed strings is equality of their encodings.
  \<^item> A property that is \<^verbatim>\<open>undefined\<close>, \<^verbatim>\<open>null\<close> or absent is \<^term>\<open>None\<close>.
  \<^item> An input field descriptor carries strings in \<^verbatim>\<open>name\<close>, \<^verbatim>\<open>field\<close> and \<^verbatim>\<open>type\<close>;
    of \<^verbatim>\<open>nullable\<close> the code only asks whether it is the boolean \<^verbatim>\<open>false\<close>, of
    \<^verbatim>\<open>new\<close> only whether it is truthy.
  \<^item> \<^verbatim>\<open>buildFieldMap\<close> stores the descriptors in a plain object literal \<^verbatim>\<open>{}\<close>. Such an
    object inherits from \<^verbatim>\<open>Object.prototype\<close>: reading a key that is not an own property
    yields the inherited member, and assigning to the key \<^verbatim>\<open>__proto__\<close> replaces the
    prototype instead of creating a property. Both are part of the model.
  \<^item> Reading a property of \<^verbatim>\<open>undefined\<close> throws a \<^verbatim>\<open>TypeError\<close>; results are sums with
    the error on the left.
\<close>

subsection \<open>String.prototype.trim\<close>

text \<open>
  The code points that \<^verbatim>\<open>trim\<close> removes (WhiteSpace and LineTerminator of ECMAScript), in
  UTF-8: TAB, LF, VT, FF, CR, SP, U+00A0, U+1680, U+2000 to U+200A, U+2028, U+2029,
  U+202F, U+205F, U+3000 and U+FEFF.
\<close>

definition white_space :: "string list" where
  "white_space =
     [[CHR 0x09], [CHR 0x0A], [CHR 0x0B], [CHR 0x0C], [CHR 0x0D], [CHR 0x20],
      [CHR 0xC2, CHR 0xA0],
      [CHR 0xE1, CHR 0x9A, CHR 0x80],
      [CHR 0xE2, CHR 0x80, CHR 0x80], [CHR 0xE2, CHR 0x80, CHR 0x81],
      [CHR 0xE2, CHR 0x80, CHR 0x82], [CHR 0xE2, CHR 0x80, CHR 0x83],
      [CHR 0xE2, CHR 0x80, CHR 0x84], [CHR 0xE2, CHR 0x80, CHR 0x85],
      [CHR 0xE2, CHR 0x80, CHR 0x86], [CHR 0xE2, CHR 0x80, CHR 0x87],
      [CHR 0xE2, CHR 0x80, CHR 0x88], [CHR 0xE2, CHR 0x80, CHR 0x89],
      [CHR 0xE2, CHR 0x80, CHR 0x8A],
      [CHR 0xE2, CHR 0x80, CHR 0xA8], [CHR 0xE2, CHR 0x80, CHR 0xA9],
      [CHR 0xE2, CHR 0x80, CHR 0xAF],
      [CHR 0xE2, CHR 0x81, CHR 0x9F],
      [CHR 0xE3, CHR 0x80, CHR 0x80],
      [CHR 0xEF, CHR 0xBB, CHR 0xBF]]"

text \<open>\<open>strip ws s\<close> removes from the front of \<open>s\<close> every leading occurrence of a word of \<open>ws\<close>.\<close>

function strip :: "string list \<Rightarrow> string \<Rightarrow> string" where
  "strip ws s =
     (case find (\<lambda>w. w \<noteq> [] \<and> take (length w) s = w) ws of
        None \<Rightarrow> s
      | Some w \<Rightarrow> strip ws (drop (length w) s))"
  by pat_completeness auto
termination
proof (relation "measure (\<lambda>(ws, s). length s)")
  show "wf (measure (\<lambda>(ws, s). length s))" by simp
next
  fix ws :: "string list" and s w :: string
  assume "find (\<lambda>w. w \<noteq> [] \<and> take (length w) s = w) ws = Some w"
  then have "w \<noteq> []" and "take (length w) s = w"
    by (auto simp: find_Some_iff)
  then have "s \<noteq> []" by auto
  with \<open>w \<noteq> []\<close> show "((ws, drop (length w) s), (ws, s)) \<in> measure (\<lambda>(ws, s). length s)"
    by simp
qed

declare strip.simps [simp del]

definition trimStart :: "string \<Rightarrow> string" where
  "trimStart s = strip white_space s"

definition trimEnd :: "string \<Rightarrow> string" where
  "trimEnd s = rev (strip (map rev white_space) (rev s))"

definition trim :: "string \<Rightarrow> string" where
  "trim s = trimEnd (trimStart s)"

subsection \<open>Field descriptors and normalizeFieldsArray\<close>

text \<open>A descriptor as the caller passes it: every property may be missing.\<close>

record raw_field =
  r_name :: "string option"
  r_field :: "string option"
  r_type :: "string option"
  r_nullable :: "bool option"
  r_new :: bool

text \<open>
  The internal shape \<^verbatim>\<open>{ name, type, nullable, new? }\<close>; \<open>f_new\<close> holds exactly when the
  object has the property \<^verbatim>\<open>new: true\<close>.
\<close>

record nfield =
  f_name :: string
  f_type :: string
  f_nullable :: bool
  f_new :: bool

definition normalizeField :: "raw_field \<Rightarrow> nfield" where
  "normalizeField f =
     \<lparr>f_name = (case r_name f of
                  Some n \<Rightarrow> n
                | None \<Rightarrow> trim (case r_field f of Some s \<Rightarrow> s | None \<Rightarrow> [])),
      f_type = (case r_type f of Some t \<Rightarrow> t | None \<Rightarrow> ''unknown''),
      f_nullable = (r_nullable f \<noteq> Some False),
      f_new = r_new f\<rparr>"

definition normalizeFieldsArray :: "raw_field list option \<Rightarrow> nfield list" where
  "normalizeFieldsArray flds =
     map normalizeField (case flds of Some fs \<Rightarrow> fs | None \<Rightarrow> [])"

subsection \<open>The plain object used as a dictionary\<close>

text \<open>
  \<open>own\<close> lists the own properties in creation order; \<open>proto\<close> is \<^term>\<open>None\<close> while the
  prototype is \<^verbatim>\<open>Object.prototype\<close> and \<open>Some p\<close> once an assignment to \<^verbatim>\<open>__proto__\<close> has
  made the descriptor copy \<open>p\<close> the prototype.
\<close>

record field_map =
  own :: "(string \<times> nfield) list"
  proto :: "nfield option"

definition empty_object :: field_map where
  "empty_object = \<lparr>own = [], proto = None\<rparr>"

text \<open>\<^verbatim>\<open>map[k] = v\<close> for an object value \<open>v\<close>.\<close>

definition set_prop :: "field_map \<Rightarrow> string \<Rightarrow> nfield \<Rightarrow> field_map" where
  "set_prop m k v =
     (if k = ''__proto__'' then m\<lparr>proto := Some v\<rparr>
      else m\<lparr>own := AList.update k v (own m)\<rparr>)"

definition buildFieldMap :: "raw_field list option \<Rightarrow> field_map" where
  "buildFieldMap flds =
     foldl (\<lambda>m f. set_prop m (f_name f) f) empty_object (normalizeFieldsArray flds)"

text \<open>The values a property read of the dictionary can produce.\<close>

datatype jsval =
    Undefined
  | FieldObj nfield
  | StrVal string
  | BoolVal bool
  | Builtin string
  | ObjectPrototype

text \<open>The members of \<^verbatim>\<open>Object.prototype\<close> (ECMAScript, with Annex B).\<close>

definition object_prototype_keys :: "string list" where
  "object_prototype_keys =
     [''constructor'', ''hasOwnProperty'', ''isPrototypeOf'', ''propertyIsEnumerable'',
      ''toLocaleString'', ''toString'', ''valueOf'',
      ''__defineGetter__'', ''__defineSetter__'', ''__lookupGetter__'', ''__lookupSetter__'',
      ''__proto__'']"

definition object_prototype_get :: "string \<Rightarrow> jsval" where
  "object_prototype_get k = (if k \<in> set object_prototype_keys then Builtin k else Undefined)"

text \<open>The own properties of a descriptor copy that has become the prototype.\<close>

definition field_own_prop :: "nfield \<Rightarrow> string \<Rightarrow> jsval option" where
  "field_own_prop p k =
     (if k = ''name'' then Some (StrVal (f_name p))
      else if k = ''type'' then Some (StrVal (f_type p))
      else if k = ''nullable'' then Some (BoolVal (f_nullable p))
      else if k = ''new'' \<and> f_new p then Some (BoolVal True)
      else None)"

text \<open>\<^verbatim>\<open>map[k]\<close>: own property, then the prototype chain.\<close>

definition get_prop :: "field_map \<Rightarrow> string \<Rightarrow> jsval" where
  "get_prop m k =
     (case map_of (own m) k of
        Some f \<Rightarrow> FieldObj f
      | None \<Rightarrow>
          (case proto m of
             None \<Rightarrow> (if k = ''__proto__'' then ObjectPrototype else object_prototype_get k)
           | Some p \<Rightarrow>
               (if k = ''__proto__'' then FieldObj p
                else case field_own_prop p k of
                       Some v \<Rightarrow> v
                     | None \<Rightarrow> object_prototype_get k)))"

fun truthy :: "jsval \<Rightarrow> bool" where
  "truthy Undefined = False"
| "truthy (FieldObj f) = True"
| "truthy (StrVal s) = (s \<noteq> [])"
| "truthy (BoolVal b) = b"
| "truthy (Builtin k) = True"
| "truthy ObjectPrototype = True"

subsection \<open>Object.keys\<close>

text \<open>
  \<^verbatim>\<open>Object.keys\<close> lists the array-index keys (canonical decimal numerals below
  \<open>2\<^sup>3\<^sup>2 - 1\<close>) in ascending numeric order, then the other keys in creation order;
  \<open>own_property_keys\<close> puts the keys, given in creation order, into that order.
\<close>

definition is_digit :: "char \<Rightarrow> bool" where
  "is_digit c = (48 \<le> (of_char c :: nat) \<and> (of_char c :: nat) \<le> 57)"

definition index_value :: "string \<Rightarrow> nat" where
  "index_value s = foldl (\<lambda>n c. 10 * n + (of_char c - 48)) 0 s"

definition is_array_index :: "string \<Rightarrow> bool" where
  "is_array_index s =
     (s \<noteq> [] \<and> list_all is_digit s \<and> (if length s = 1 then True else hd s \<noteq> CHR ''0'')
      \<and> index_value s < 4294967295)"

definition own_property_keys :: "string list \<Rightarrow> string list" where
  "own_property_keys ks =
     sort_key index_value (filter is_array_index ks) @ filter (\<lambda>k. \<not> is_array_index k) ks"

definition object_keys :: "field_map \<Rightarrow> string list" where
  "object_keys m = own_property_keys (map fst (own m))"

text \<open>\<^verbatim>\<open>Array.from(new Set(xs))\<close>: the first occurrence of every element, in order.\<close>

definition set_add :: "string list \<Rightarrow> string \<Rightarrow> string list" where
  "set_add acc k = (if k \<in> set acc then acc else acc @ [k])"

definition array_from_set :: "string list \<Rightarrow> string list" where
  "array_from_set xs = foldl set_add [] xs"

subsection \<open>diffSchemas\<close>

datatype error = TypeError

text \<open>A schema object; \<open>schema_fields\<close> is its property \<^verbatim>\<open>fields\<close>.\<close>

record schema =
  schema_fields :: "raw_field list option"

text \<open>The \<^verbatim>\<open>before\<close> and \<^verbatim>\<open>after\<close> objects of a changed entry; \<^term>\<open>None\<close> is \<^verbatim>\<open>undefined\<close>.\<close>

record side =
  s_type :: "string option"
  s_nullable :: "bool option"

record change =
  c_name :: string
  before :: side
  after :: side
  diffs :: "string list"

record diff =
  added :: "jsval list"
  removed :: "jsval list"
  changed :: "change list"
  unchanged :: "jsval list"

text \<open>\<^verbatim>\<open>a.type\<close> and \<^verbatim>\<open>a.nullable\<close>.\<close>

fun get_type :: "jsval \<Rightarrow> error + string option" where
  "get_type Undefined = Inl TypeError"
| "get_type (FieldObj f) = Inr (Some (f_type f))"
| "get_type v = Inr None"

fun get_nullable :: "jsval \<Rightarrow> error + bool option" where
  "get_nullable Undefined = Inl TypeError"
| "get_nullable (FieldObj f) = Inr (Some (f_nullable f))"
| "get_nullable v = Inr None"

text \<open>\<^verbatim>\<open>(x || '')\<close> on a string or \<^verbatim>\<open>undefined\<close>, and \<^verbatim>\<open>!!x\<close> on a boolean or \<^verbatim>\<open>undefined\<close>.\<close>

definition or_empty :: "string option \<Rightarrow> string" where
  "or_empty x = (case x of Some s \<Rightarrow> s | None \<Rightarrow> [])"

definition to_bool :: "bool option \<Rightarrow> bool" where
  "to_bool x = (case x of Some b \<Rightarrow> b | None \<Rightarrow> False)"

text \<open>One call of the \<^verbatim>\<open>forEach\<close> callback: which array receives what.\<close>

datatype entry = Added jsval | Removed jsval | Changed change | Unchanged jsval

definition compare :: "string \<Rightarrow> jsval \<Rightarrow> jsval \<Rightarrow> error + entry" where
  "compare name a b =
     (case (get_type a, get_type b, get_nullable a, get_nullable b) of
        (Inr ta, Inr tb, Inr na, Inr nb) \<Rightarrow>
          (let ds = (if or_empty ta \<noteq> or_empty tb then [''type''] else [])
                    @ (if to_bool na \<noteq> to_bool nb then [''nullable''] else [])
           in if ds \<noteq> []
              then Inr (Changed \<lparr>c_name = name,
                                 before = \<lparr>s_type = ta, s_nullable = na\<rparr>,
                                 after = \<lparr>s_type = tb, s_nullable = nb\<rparr>,
                                 diffs = ds\<rparr>)
              else Inr (Unchanged b))
      | _ \<Rightarrow> Inl TypeError)"

definition classify :: "field_map \<Rightarrow> field_map \<Rightarrow> string \<Rightarrow> error + entry" where
  "classify oldMap newMap name =
     (let a = get_prop oldMap name; b = get_prop newMap name
      in if \<not> truthy a \<and> truthy b then Inr (Added b)
         else if truthy a \<and> \<not> truthy b then Inr (Removed a)
         else compare name a b)"

fun push :: "diff \<Rightarrow> entry \<Rightarrow> diff" where
  "push d (Added v) = d\<lparr>added := added d @ [v]\<rparr>"
| "push d (Removed v) = d\<lparr>removed := removed d @ [v]\<rparr>"
| "push d (Changed c) = d\<lparr>changed := changed d @ [c]\<rparr>"
| "push d (Unchanged v) = d\<lparr>unchanged := unchanged d @ [v]\<rparr>"

fun forEach :: "field_map \<Rightarrow> field_map \<Rightarrow> string list \<Rightarrow> diff \<Rightarrow> error + diff" where
  "forEach oldMap newMap [] d = Inr d"
| "forEach oldMap newMap (name # names) d =
     (case classify oldMap newMap name of
        Inl e \<Rightarrow> Inl e
      | Inr x \<Rightarrow> forEach oldMap newMap names (push d x))"

definition empty_diff :: diff where
  "empty_diff = \<lparr>added = [], removed = [], changed = [], unchanged = []\<rparr>"

definition allNames :: "field_map \<Rightarrow> field_map \<Rightarrow> string list" where
  "allNames oldMap newMap = array_from_set (object_keys oldMap @ object_keys newMap)"

definition diffSchemas :: "schema \<Rightarrow> schema \<Rightarrow> error + diff" where
  "diffSchemas oldSchema newSchema =
     (let oldMap = buildFieldMap (schema_fields oldSchema);
          newMap = buildFieldMap (schema_fields newSchema)
      in forEach oldMap newMap (allNames oldMap newMap) empty_diff)"

subsection \<open>computeStability\<close>

text \<open>
  \<^verbatim>\<open>Math.round((stableChecks / totalChecks) * 100)\<close> is computed on IEEE 754 doubles. The
  counters are integers far below \<open>2\<^sup>5\<^sup>3\<close> (a JavaScript array has fewer than \<open>2\<^sup>3\<^sup>2\<close> elements),
  so they are exact; the division and the multiplication each round their exact result to
  the nearest double, ties to even. \<open>fl\<close> is that rounding on rationals: 53 significant
  bits, the grid of the subnormal numbers below \<open>2\<^sup>-\<^sup>1\<^sup>0\<^sup>2\<^sup>2\<close>. Overflow cannot occur here, the
  values being at most a little over 100.
\<close>

definition rne :: "rat \<Rightarrow> int" where
  "rne y = (let f = \<lfloor>y\<rfloor>; r = y - of_int f
            in if r < 1 / 2 then f else if 1 / 2 < r then f + 1
               else if even f then f else f + 1)"

text \<open>\<open>ilog2 x\<close> is the integer \<open>k\<close> with \<open>2\<^sup>k \<le> x < 2\<^sup>k\<^sup>+\<^sup>1\<close>, for positive \<open>x\<close>.\<close>

definition ilog2 :: "rat \<Rightarrow> int" where
  "ilog2 x = (let (a, b) = quotient_of x; k = bitlen a - bitlen b
              in if 2 powi k \<le> x then k else k - 1)"

definition fl :: "rat \<Rightarrow> rat" where
  "fl x = (if x = 0 then 0
           else let a = \<bar>x\<bar>; e = max (ilog2 a - 52) (- 1074)
                in sgn x * of_int (rne (a / 2 powi e)) * 2 powi e)"

text \<open>\<^verbatim>\<open>Math.round\<close>: the nearest integer, a tie going up.\<close>

definition math_round :: "rat \<Rightarrow> int" where
  "math_round x = \<lfloor>x + 1 / 2\<rfloor>"

definition is_stable :: "diff \<Rightarrow> bool" where
  "is_stable d = (length (added d) + length (removed d) + length (changed d) = 0)"

text \<open>
  The \<^verbatim>\<open>for\<close> loop over the adjacent pairs; the accumulator is
  \<open>(totalChecks, stableChecks)\<close>.
\<close>

fun stability_loop :: "schema list \<Rightarrow> nat \<times> nat \<Rightarrow> error + nat \<times> nat" where
  "stability_loop (prev # cur # rest) (totalChecks, stableChecks) =
     (case diffSchemas prev cur of
        Inl e \<Rightarrow> Inl e
      | Inr d \<Rightarrow>
          stability_loop (cur # rest)
            (totalChecks + 1, if is_stable d then stableChecks + 1 else stableChecks))"
| "stability_loop history acc = Inr acc"

definition computeStability :: "schema list \<Rightarrow> error + int" where
  "computeStability history =
     (if length history < 2 then Inr 100
      else case stability_loop history (0, 0) of
             Inl e \<Rightarrow> Inl e
           | Inr (totalChecks, stableChecks) \<Rightarrow>
               Inr (math_round (fl (fl (of_nat stableChecks / of_nat totalChecks) * 100))))"

subsection \<open>fieldTimeline\<close>

text \<open>
  A history element as \<^verbatim>\<open>fieldTimeline\<close> reads it. Its property \<^verbatim>\<open>schema\<close> is absent, a
  schema object, or the array of descriptors itself. Version labels and time stamps are
  integers or strings.
\<close>

datatype schema_prop = SchemaObject schema | FieldsArray "raw_field list"

datatype jsprim = Num int | Str string

record version_entry =
  v_schema :: "schema_prop option"
  v_version :: "jsprim option"
  v_id :: "jsprim option"
  v_created_at :: "jsprim option"
  v_timestamp :: "jsprim option"

record timeline_entry =
  t_version :: jsprim
  t_created_at :: "jsprim option"
  present :: bool
  t_type :: "string option"
  t_nullable :: "bool option"

fun prim_truthy :: "jsprim option \<Rightarrow> bool" where
  "prim_truthy None = False"
| "prim_truthy (Some (Num n)) = (n \<noteq> 0)"
| "prim_truthy (Some (Str s)) = (s \<noteq> [])"

text \<open>
  \<^verbatim>\<open>s.schema?.fields || s.schema || []\<close>, handed to \<^verbatim>\<open>buildFieldMap\<close>. A schema object
  without \<^verbatim>\<open>fields\<close> is itself handed on, and \<^verbatim>\<open>normalizeFieldsArray\<close> throws on its
  missing \<^verbatim>\<open>map\<close> method.
\<close>

fun timeline_fields :: "schema_prop option \<Rightarrow> error + raw_field list" where
  "timeline_fields None = Inr []"
| "timeline_fields (Some (FieldsArray fs)) = Inr fs"
| "timeline_fields (Some (SchemaObject sch)) =
     (case schema_fields sch of Some fs \<Rightarrow> Inr fs | None \<Rightarrow> Inl TypeError)"

text \<open>\<^verbatim>\<open>f?.type || null\<close> and \<^verbatim>\<open>f ? !!f.nullable : null\<close>.\<close>

fun type_or_null :: "jsval \<Rightarrow> string option" where
  "type_or_null (FieldObj f) = (if f_type f \<noteq> [] then Some (f_type f) else None)"
| "type_or_null v = None"

fun nullable_flag :: "jsval \<Rightarrow> bool" where
  "nullable_flag (FieldObj f) = f_nullable f"
| "nullable_flag v = False"

text \<open>\<^verbatim>\<open>a || b\<close> on version labels and time stamps.\<close>

definition js_or :: "jsprim option \<Rightarrow> jsprim option \<Rightarrow> jsprim option" where
  "js_or a b = (if prim_truthy a then a else b)"

definition timeline_of :: "string \<Rightarrow> version_entry \<Rightarrow> error + timeline_entry" where
  "timeline_of fieldName s =
     (case timeline_fields (v_schema s) of
        Inl e \<Rightarrow> Inl e
      | Inr fs \<Rightarrow>
          (let f = get_prop (buildFieldMap (Some fs)) fieldName
           in Inr \<lparr>t_version =
                      (case js_or (js_or (js_or (v_version s) (v_version s)) (v_id s))
                              (Some (Str ''v?'')) of
                         Some v \<Rightarrow> v
                       | None \<Rightarrow> Str ''v?''),
                    t_created_at = js_or (js_or (v_created_at s) (v_timestamp s)) None,
                    present = truthy f,
                    t_type = type_or_null f,
                    t_nullable = (if truthy f then Some (nullable_flag f) else None)\<rparr>))"

fun fieldTimeline :: "string \<Rightarrow> version_entry list \<Rightarrow> error + timeline_entry list" where
  "fieldTimeline fieldName [] = Inr []"
| "fieldTimeline fieldName (s # history) =
     (case timeline_of fieldName s of
        Inl e \<Rightarrow> Inl e
      | Inr t \<Rightarrow>
          (case fieldTimeline fieldName history of
             Inl e \<Rightarrow> Inl e
           | Inr ts \<Rightarrow> Inr (t # ts)))"

section \<open>The Fragment Detector\<close>

text \<open>
  The detector belongs to the Python backend (\<^verbatim>\<open>etl/extract\<close>), whose code is not among
  the sources; only its documentation is. The scanner below follows section 4.1 of the
  specification.
\<close>

text \<open>
  Modelled from the spec: the kinds of fragment, one for each structured detector and
  \<open>RawText\<close> for the residue.
\<close>

datatype kind = Json | HtmlTable | Csv | KeyValue | RawText

text \<open>
  Modelled from the spec: a fragment, reduced to its kind and to its \<^verbatim>\<open>rawSpan\<close>, the start
  and the end offset of its text in the buffer.
\<close>

record fragment =
  frag_kind :: kind
  rawSpan :: "nat \<times> nat"

text \<open>
  Modelled from the spec: the four structured detectors (JSON object or array, HTML table,
  CSV block, key-value block) are missing. A detector is any function that, for a buffer
  and a scan position, reports the length of the longest match it finds there, if any.
\<close>

type_synonym detector = "string \<Rightarrow> nat \<Rightarrow> nat option"

record detectors =
  json_detector :: detector
  html_table_detector :: detector
  csv_detector :: detector
  key_value_detector :: detector

text \<open>
  Modelled from the spec: the fixed priority order of the detectors, which is missing with
  the scanner: JSON, then HTML table, then CSV, then key-value.
\<close>

definition priority :: "detectors \<Rightarrow> (kind \<times> detector) list" where
  "priority ds =
     [(Json, json_detector ds), (HtmlTable, html_table_detector ds),
      (Csv, csv_detector ds), (KeyValue, key_value_detector ds)]"

text \<open>
  Modelled from the spec: the missing choice of the detector at one scan position. A match
  is a span of the buffer that starts at the position and is not empty; the first detector
  in priority order that reports one wins.
\<close>

fun first_match :: "(kind \<times> detector) list \<Rightarrow> string \<Rightarrow> nat \<Rightarrow> (kind \<times> nat) option" where
  "first_match [] buf pos = None"
| "first_match ((k, d) # rest) buf pos =
     (case d buf pos of
        None \<Rightarrow> first_match rest buf pos
      | Some n \<Rightarrow> if 0 < n \<and> pos + n \<le> length buf then Some (k, n)
                  else first_match rest buf pos)"

text \<open>
  Modelled from the spec: the pending residue, from \<open>start\<close> up to the scan position,
  emitted as one \<open>RawText\<close> fragment; nothing is emitted when no residue is pending.
\<close>

fun flush :: "nat option \<Rightarrow> nat \<Rightarrow> fragment list" where
  "flush None pos = []"
| "flush (Some start) pos = [\<lparr>frag_kind = RawText, rawSpan = (start, pos)\<rparr>]"

text \<open>
  Modelled from the spec: the missing scanner. At the scan position the detectors are
  tried in priority order; a match is emitted (after the pending residue) and the scan
  resumes past it; an unmatched position joins the current RawText residue, which is
  emitted when a match resumes or the buffer ends.
\<close>

function scan :: "detectors \<Rightarrow> string \<Rightarrow> nat \<Rightarrow> nat option \<Rightarrow> fragment list" where
  "scan ds buf pos residue =
     (if length buf \<le> pos then flush residue (length buf)
      else case first_match (priority ds) buf pos of
             Some (k, n) \<Rightarrow>
               flush residue pos
               @ \<lparr>frag_kind = k, rawSpan = (pos, pos + n)\<rparr> # scan ds buf (pos + n) None
           | None \<Rightarrow>
               scan ds buf (pos + 1) (Some (case residue of None \<Rightarrow> pos | Some r \<Rightarrow> r)))"
  by pat_completeness auto
termination
proof (relation "measure (\<lambda>(ds, buf, pos, residue). length buf - pos)")
  show "wf (measure (\<lambda>(ds, buf, pos, residue). length buf - pos))" by simp
next
  fix ds :: detectors and buf :: string and pos :: nat and residue :: "nat option"
    and x :: "kind \<times> nat" and k :: kind and n :: nat
  assume "\<not> length buf \<le> pos" and m: "first_match (priority ds) buf pos = Some x"
    and x: "(k, n) = x"
  have "0 < n'" if "first_match xs buf pos = Some (k', n')" for xs k' n'
    using that by (induction xs buf pos rule: first_match.induct) (auto split: option.splits if_splits)
  with m x have "0 < n" by metis
  with \<open>\<not> length buf \<le> pos\<close>
  show "((ds, buf, pos + n, None), (ds, buf, pos, residue))
          \<in> measure (\<lambda>(ds, buf, pos, residue). length buf - pos)"
    by simp
next
  fix ds :: detectors and buf :: string and pos :: nat and residue :: "nat option"
  assume "\<not> length buf \<le> pos"
  then show "((ds, buf, pos + 1, Some (case residue of None \<Rightarrow> pos | Some r \<Rightarrow> r)),
               (ds, buf, pos, residue))
          \<in> measure (\<lambda>(ds, buf, pos, residue). length buf - pos)"
    by simp
qed

declare scan.simps [simp del]

text \<open>
  Modelled from the spec: the detector scans the buffer from its start, with no residue
  pending.
\<close>

definition detect :: "detectors \<Rightarrow> string \<Rightarrow> fragment list" where
  "detect ds buf = scan ds buf 0 None"

text \<open>The text of a span, and of a fragment sequence.\<close>

definition span_text :: "string \<Rightarrow> nat \<times> nat \<Rightarrow> string" where
  "span_text buf sp = take (snd sp - fst sp) (drop (fst sp) buf)"

definition reconstruct :: "string \<Rightarrow> fragment list \<Rightarrow> string" where
  "reconstruct buf fs = concat (map (\<lambda>f. span_text buf (rawSpan f)) fs)"

text \<open>
  \<open>tiles a b sps\<close>: the spans are non-empty, the first starts at \<open>a\<close>, each next one
  starts where its predecessor ends, and the last ends at \<open>b\<close>.
\<close>

fun tiles :: "nat \<Rightarrow> nat \<Rightarrow> (nat \<times> nat) list \<Rightarrow> bool" where
  "tiles a b [] = (a = b)"
| "tiles a b ((s, e) # sps) = (s = a \<and> s < e \<and> tiles e b sps)"


definition last_field :: "nfield list \<Rightarrow> string \<Rightarrow> nfield option" where
  "last_field fs n = find (\<lambda>f. f_name f = n) (rev fs)"

definition fill :: "field_map \<Rightarrow> nfield list \<Rightarrow> field_map" where
  "fill m fs = foldl (\<lambda>m f. set_prop m (f_name f) f) m fs"

fun added_of :: "entry \<Rightarrow> jsval list" where
  "added_of (Added v) = [v]"
| "added_of e = []"

fun removed_of :: "entry \<Rightarrow> jsval list" where
  "removed_of (Removed v) = [v]"
| "removed_of e = []"

fun changed_of :: "entry \<Rightarrow> change list" where
  "changed_of (Changed c) = [c]"
| "changed_of e = []"

fun unchanged_of :: "entry \<Rightarrow> jsval list" where
  "unchanged_of (Unchanged v) = [v]"
| "unchanged_of e = []"

definition the_entry :: "field_map \<Rightarrow> field_map \<Rightarrow> string \<Rightarrow> entry" where
  "the_entry om nm n = (case classify om nm n of Inr e \<Rightarrow> e | Inl x \<Rightarrow> Unchanged Undefined)"

definition entries :: "schema \<Rightarrow> schema \<Rightarrow> entry list" where
  "entries old new =
     (let om = buildFieldMap (schema_fields old); nm = buildFieldMap (schema_fields new)
      in map (the_entry om nm) (allNames om nm))"

definition change_of :: "nfield \<Rightarrow> nfield \<Rightarrow> change" where
  "change_of a b =
     \<lparr>c_name = f_name a,
      before = \<lparr>s_type = Some (f_type a), s_nullable = Some (f_nullable a)\<rparr>,
      after = \<lparr>s_type = Some (f_type b), s_nullable = Some (f_nullable b)\<rparr>,
      diffs = (if f_type a \<noteq> f_type b then [''type''] else [])
              @ (if f_nullable a \<noteq> f_nullable b then [''nullable''] else [])\<rparr>"

definition differ :: "nfield \<Rightarrow> nfield \<Rightarrow> bool" where
  "differ a b = (f_type a \<noteq> f_type b \<or> f_nullable a \<noteq> f_nullable b)"

section \<open>The claims about diffSchemas\<close>

text \<open>The descriptor \<^verbatim>\<open>{ name: n, type: t }\<close>.\<close>

definition plain_field :: "string \<Rightarrow> string \<Rightarrow> raw_field" where
  "plain_field n t =
     \<lparr>r_name = Some n, r_field = None, r_type = Some t, r_nullable = None, r_new = False\<rparr>"

text \<open>The descriptor \<^verbatim>\<open>{ name: n, type: t, nullable: false }\<close>.\<close>

definition required_field :: "string \<Rightarrow> string \<Rightarrow> raw_field" where
  "required_field n t =
     \<lparr>r_name = Some n, r_field = None, r_type = Some t, r_nullable = Some False,
      r_new = False\<rparr>"

section \<open>diffSchemas on schemas without names of Object.prototype\<close>

text \<open>The names of the fields of a schema, after normalization.\<close>

definition field_names :: "schema \<Rightarrow> string list" where
  "field_names s = map f_name (normalizeFieldsArray (schema_fields s))"

text \<open>No field of the schema is named like a member of \<^verbatim>\<open>Object.prototype\<close>.\<close>

definition plain_names :: "schema \<Rightarrow> bool" where
  "plain_names s = list_all (\<lambda>n. n \<notin> set object_prototype_keys) (field_names s)"

text \<open>The entry that the specification expects for a name.\<close>

definition expected_entry :: "nfield list \<Rightarrow> nfield list \<Rightarrow> string \<Rightarrow> entry" where
  "expected_entry old_fields new_fields n =
     (case (last_field old_fields n, last_field new_fields n) of
        (None, None) \<Rightarrow> Unchanged Undefined
      | (None, Some b) \<Rightarrow> Added (FieldObj b)
      | (Some a, None) \<Rightarrow> Removed (FieldObj a)
      | (Some a, Some b) \<Rightarrow>
          if differ a b then Changed (change_of a b) else Unchanged (FieldObj b))"

text \<open>
  Claim C4, for schemas without names of members of \<^verbatim>\<open>Object.prototype\<close>.
  \<open>occurrences n d\<close> counts the entries of the four groups of \<open>d\<close> that carry the name
  \<open>n\<close>: it is 1 for every name of a field of either schema and 0 for every other name.
\<close>

fun has_name :: "string \<Rightarrow> jsval \<Rightarrow> bool" where
  "has_name n (FieldObj f) = (f_name f = n)"
| "has_name n v = False"

definition occurrences :: "string \<Rightarrow> diff \<Rightarrow> nat" where
  "occurrences n d =
     length (filter (has_name n) (added d)) + length (filter (has_name n) (removed d))
     + length (filter (\<lambda>c. c_name c = n) (changed d))
     + length (filter (has_name n) (unchanged d))"

fun entry_occurs :: "string \<Rightarrow> entry \<Rightarrow> nat" where
  "entry_occurs n (Added v) = (if has_name n v then 1 else 0)"
| "entry_occurs n (Removed v) = (if has_name n v then 1 else 0)"
| "entry_occurs n (Changed c) = (if c_name c = n then 1 else 0)"
| "entry_occurs n (Unchanged v) = (if has_name n v then 1 else 0)"

text \<open>The score as a function of the two counters.\<close>

definition score :: "nat \<Rightarrow> nat \<Rightarrow> int" where
  "score stableChecks totalChecks =
     math_round (fl (fl (of_nat stableChecks / of_nat totalChecks) * 100))"

text \<open>The diff of two schemas: \<open>diffSchemas\<close> never throws.\<close>

definition the_diff :: "schema \<Rightarrow> schema \<Rightarrow> diff" where
  "the_diff old new =
     \<lparr>added = concat (map added_of (entries old new)),
      removed = concat (map removed_of (entries old new)),
      changed = concat (map changed_of (entries old new)),
      unchanged = concat (map unchanged_of (entries old new))\<rparr>"

text \<open>The adjacent pairs of a history, and the pairs whose diff has no change.\<close>

definition adjacent :: "schema list \<Rightarrow> (schema \<times> schema) list" where
  "adjacent history = zip history (tl history)"

definition stable_pair :: "schema \<times> schema \<Rightarrow> bool" where
  "stable_pair p = is_stable (the_diff (fst p) (snd p))"

section \<open>fieldTimeline\<close>

text \<open>The names of the fields of a version, and the versions that have a field list.\<close>

definition version_names :: "version_entry \<Rightarrow> string list" where
  "version_names s =
     (case timeline_fields (v_schema s) of
        Inr fs \<Rightarrow> map f_name (normalizeFieldsArray (Some fs))
      | Inl e \<Rightarrow> [])"

definition has_field_list :: "version_entry \<Rightarrow> bool" where
  "has_field_list s = (case timeline_fields (v_schema s) of Inr fs \<Rightarrow> True | Inl e \<Rightarrow> False)"

definition plain_version :: "version_entry \<Rightarrow> bool" where
  "plain_version s = (has_field_list s \<and> ''__proto__'' \<notin> set (version_names s))"

text \<open>What claim C10 says of one entry \<open>t\<close> of the time line, for the version \<open>s\<close>.\<close>

definition timeline_entry_ok :: "string \<Rightarrow> version_entry \<Rightarrow> timeline_entry \<Rightarrow> bool" where
  "timeline_entry_ok fieldName s t =
     (present t = (fieldName \<in> set (version_names s))
      \<and> (if present t then True else t_type t = None \<and> t_nullable t = None))"

text \<open>
  \<open>labelled ds buf f\<close>: the kind of the fragment \<open>f\<close> is right. A \<open>RawText\<close> fragment holds
  only positions at which no detector matches; a fragment of another kind is the match
  that the first detector in priority order reports where the fragment starts.
\<close>

definition labelled :: "detectors \<Rightarrow> string \<Rightarrow> fragment \<Rightarrow> bool" where
  "labelled ds buf f =
     (if frag_kind f = RawText
      then list_all (\<lambda>p. first_match (priority ds) buf p = None)
             [fst (rawSpan f)..<snd (rawSpan f)]
      else first_match (priority ds) buf (fst (rawSpan f))
             = Some (frag_kind f, snd (rawSpan f) - fst (rawSpan f)))"

text \<open>\<open>separated fs\<close>: no two \<open>RawText\<close> fragments follow one another.\<close>

fun separated :: "fragment list \<Rightarrow> bool" where
  "separated (f # g # fs) =
     (\<not> (frag_kind f = RawText \<and> frag_kind g = RawText) \<and> separated (g # fs))"
| "separated fs = True"

text \<open>
  Detectors for an example: the JSON detector matches the empty object \<^verbatim>\<open>{}\<close>, the other
  detectors match nothing.
\<close>

definition brace_detector :: detector where
  "brace_detector buf pos = (if take 2 (drop pos buf) = ''{}'' then Some 2 else None)"

definition example_detectors :: detectors where
  "example_detectors =
     \<lparr>json_detector = brace_detector, html_table_detector = (\<lambda>buf pos. None),
      csv_detector = (\<lambda>buf pos. None), key_value_detector = (\<lambda>buf pos. None)\<rparr>"

section \<open>The functions on a store of objects\<close>

text \<open>
  Whether the functions mutate their arguments cannot be read off functions on values.
  This second embedding keeps every object and array in a store, addressed by its
  position; a variable of the source holds an address. Each object or array literal and
  each \<^verbatim>\<open>map\<close> of the source allocates, each \<^verbatim>\<open>map[k] = v\<close> and each \<^verbatim>\<open>push\<close> writes to the
  store at the address its variable holds. The arrays of key names (\<^verbatim>\<open>Object.keys\<close>,
  the spread, the \<^verbatim>\<open>Set\<close>) are never written by the functions and stay values.
\<close>

type_synonym addr = nat

text \<open>A value is a reference to an object or array, or a value that is none.\<close>

datatype hval = Ref addr | Val jsval

text \<open>
  The properties of a schema or version object that the functions read: \<^verbatim>\<open>fields\<close>,
  \<^verbatim>\<open>schema\<close>, \<^verbatim>\<open>version\<close>, \<^verbatim>\<open>id\<close>, \<^verbatim>\<open>created_at\<close> and \<^verbatim>\<open>timestamp\<close>.
\<close>

record version_obj =
  o_fields :: "addr option"
  o_schema :: "addr option"
  o_version :: "jsprim option"
  o_id :: "jsprim option"
  o_created_at :: "jsprim option"
  o_timestamp :: "jsprim option"

datatype hobj =
    RawObj raw_field
  | NormObj nfield
  | ArrayObj "hval list"
  | DictObj "(string \<times> addr) list" "addr option"
  | SchemaObj version_obj
  | ChangeObj change
  | DiffObj addr addr addr addr
  | TimelineObj timeline_entry

type_synonym heap = "hobj list"

type_synonym 'a prog = "heap \<Rightarrow> (error + 'a) \<times> heap"

definition ret :: "'a \<Rightarrow> 'a prog" where
  "ret x = (\<lambda>h. (Inr x, h))"

definition throw :: "error \<Rightarrow> 'a prog" where
  "throw e = (\<lambda>h. (Inl e, h))"

definition bnd :: "'a prog \<Rightarrow> ('a \<Rightarrow> 'b prog) \<Rightarrow> 'b prog" where
  "bnd m f = (\<lambda>h. case m h of (Inl e, h') \<Rightarrow> (Inl e, h') | (Inr x, h') \<Rightarrow> f x h')"

definition alloc :: "hobj \<Rightarrow> addr prog" where
  "alloc obj = (\<lambda>h. (Inr (length h), h @ [obj]))"

definition load :: "addr \<Rightarrow> hobj prog" where
  "load a = (\<lambda>h. if a < length h then (Inr (h ! a), h) else (Inl TypeError, h))"

definition store :: "addr \<Rightarrow> hobj \<Rightarrow> unit prog" where
  "store a obj = (\<lambda>h. if a < length h then (Inr (), h[a := obj]) else (Inl TypeError, h))"

fun for_each :: "('a \<Rightarrow> unit prog) \<Rightarrow> 'a list \<Rightarrow> unit prog" where
  "for_each f [] = ret ()"
| "for_each f (x # xs) = bnd (f x) (\<lambda>u. for_each f xs)"

fun map_each :: "('a \<Rightarrow> 'b prog) \<Rightarrow> 'a list \<Rightarrow> 'b list prog" where
  "map_each f [] = ret []"
| "map_each f (x # xs) = bnd (f x) (\<lambda>y. bnd (map_each f xs) (\<lambda>ys. ret (y # ys)))"

text \<open>Reading an array, a dictionary; \<^verbatim>\<open>arr.push(v)\<close>.\<close>

definition read_array :: "addr \<Rightarrow> hval list prog" where
  "read_array a =
     bnd (load a) (\<lambda>obj. case obj of ArrayObj vs \<Rightarrow> ret vs | _ \<Rightarrow> throw TypeError)"

definition read_dict :: "addr \<Rightarrow> ((string \<times> addr) list \<times> addr option) prog" where
  "read_dict a =
     bnd (load a) (\<lambda>obj. case obj of DictObj ps p \<Rightarrow> ret (ps, p) | _ \<Rightarrow> throw TypeError)"

definition array_push :: "addr \<Rightarrow> hval \<Rightarrow> unit prog" where
  "array_push arr v = bnd (read_array arr) (\<lambda>vs. store arr (ArrayObj (vs @ [v])))"

text \<open>
  The descriptor behind an element of a field list: a descriptor of the caller, or an
  object of the internal shape (which normalization leaves as it is). Anything else is
  no field list.
\<close>

definition read_descriptor :: "hval \<Rightarrow> nfield prog" where
  "read_descriptor v =
     (case v of
        Ref r \<Rightarrow>
          bnd (load r) (\<lambda>obj. case obj of
                                 RawObj f \<Rightarrow> ret (normalizeField f)
                               | NormObj f \<Rightarrow> ret f
                               | _ \<Rightarrow> throw TypeError)
      | Val j \<Rightarrow> throw TypeError)"

text \<open>\<^verbatim>\<open>(fields || []).map(f => ({ ... }))\<close>: a new array of new objects.\<close>

definition normalizeFieldsArray_h :: "addr option \<Rightarrow> addr prog" where
  "normalizeFieldsArray_h flds =
     (case flds of
        None \<Rightarrow> alloc (ArrayObj [])
      | Some a \<Rightarrow>
          bnd (read_array a) (\<lambda>vs.
          bnd (map_each (\<lambda>v. bnd (read_descriptor v) (\<lambda>f. alloc (NormObj f))) vs) (\<lambda>rs.
          alloc (ArrayObj (map Ref rs)))))"

text \<open>\<^verbatim>\<open>map[k] = v\<close> on the dictionary at address \<open>m\<close>.\<close>

definition set_prop_h :: "addr \<Rightarrow> string \<Rightarrow> addr \<Rightarrow> unit prog" where
  "set_prop_h m k v =
     bnd (read_dict m) (\<lambda>(ps, p).
       store m (if k = ''__proto__'' then DictObj ps (Some v)
                else DictObj (AList.update k v ps) p))"

text \<open>The body of the \<^verbatim>\<open>forEach\<close> of \<^verbatim>\<open>buildFieldMap\<close>: \<^verbatim>\<open>map[f.name] = { ...f }\<close>.\<close>

definition store_copy :: "addr \<Rightarrow> hval \<Rightarrow> unit prog" where
  "store_copy m v =
     bnd (read_descriptor v) (\<lambda>f.
     bnd (alloc (NormObj f)) (\<lambda>c.
     set_prop_h m (f_name f) c))"

definition buildFieldMap_h :: "addr option \<Rightarrow> addr prog" where
  "buildFieldMap_h flds =
     bnd (alloc (DictObj [] None)) (\<lambda>m.
     bnd (normalizeFieldsArray_h flds) (\<lambda>nf.
     bnd (read_array nf) (\<lambda>vs.
     bnd (for_each (store_copy m) vs) (\<lambda>u.
     ret m))))"

text \<open>
  \<^verbatim>\<open>map[k]\<close> and \<^verbatim>\<open>Object.keys(map)\<close> on the dictionary at address \<open>m\<close>; \<open>lookup_h\<close>
  is the read in the own properties \<open>ps\<close>, then along the prototype chain from \<open>p\<close>.
\<close>

definition lookup_h :: "(string \<times> addr) list \<Rightarrow> addr option \<Rightarrow> string \<Rightarrow> hval prog" where
  "lookup_h ps p k =
     (case map_of ps k of
        Some a \<Rightarrow> ret (Ref a)
      | None \<Rightarrow>
          (case p of
             None \<Rightarrow> ret (Val (if k = ''__proto__'' then ObjectPrototype
                                else object_prototype_get k))
           | Some q \<Rightarrow>
               if k = ''__proto__'' then ret (Ref q)
               else bnd (read_descriptor (Ref q)) (\<lambda>f.
                      ret (Val (case field_own_prop f k of
                                  Some v \<Rightarrow> v
                                | None \<Rightarrow> object_prototype_get k)))))"

definition get_prop_h :: "addr \<Rightarrow> string \<Rightarrow> hval prog" where
  "get_prop_h m k = bnd (read_dict m) (\<lambda>(ps, p). lookup_h ps p k)"

definition object_keys_h :: "addr \<Rightarrow> string list prog" where
  "object_keys_h m = bnd (read_dict m) (\<lambda>(ps, p). ret (own_property_keys (map fst ps)))"

fun truthy_h :: "hval \<Rightarrow> bool" where
  "truthy_h (Ref a) = True"
| "truthy_h (Val j) = truthy j"

text \<open>\<^verbatim>\<open>a.type\<close> and \<^verbatim>\<open>a.nullable\<close>.\<close>

definition get_type_h :: "hval \<Rightarrow> string option prog" where
  "get_type_h v =
     (case v of
        Ref r \<Rightarrow> bnd (read_descriptor v) (\<lambda>f. ret (Some (f_type f)))
      | Val j \<Rightarrow> (case get_type j of Inl e \<Rightarrow> throw e | Inr t \<Rightarrow> ret t))"

definition get_nullable_h :: "hval \<Rightarrow> bool option prog" where
  "get_nullable_h v =
     (case v of
        Ref r \<Rightarrow> bnd (read_descriptor v) (\<lambda>f. ret (Some (f_nullable f)))
      | Val j \<Rightarrow> (case get_nullable j of Inl e \<Rightarrow> throw e | Inr t \<Rightarrow> ret t))"

text \<open>The comparison of the two values, and the callback of the \<^verbatim>\<open>forEach\<close>.\<close>

definition compare_h :: "addr \<Rightarrow> addr \<Rightarrow> string \<Rightarrow> hval \<Rightarrow> hval \<Rightarrow> unit prog" where
  "compare_h changed_arr unchanged_arr name a b =
     bnd (get_type_h a) (\<lambda>ta.
     bnd (get_type_h b) (\<lambda>tb.
     bnd (get_nullable_h a) (\<lambda>na.
     bnd (get_nullable_h b) (\<lambda>nb.
       (let ds = (if or_empty ta \<noteq> or_empty tb then [''type''] else [])
                 @ (if to_bool na \<noteq> to_bool nb then [''nullable''] else [])
        in if ds \<noteq> []
           then bnd (alloc (ChangeObj \<lparr>c_name = name,
                                       before = \<lparr>s_type = ta, s_nullable = na\<rparr>,
                                       after = \<lparr>s_type = tb, s_nullable = nb\<rparr>,
                                       diffs = ds\<rparr>))
                  (\<lambda>c. array_push changed_arr (Ref c))
           else array_push unchanged_arr b)))))"

definition classify_h ::
  "addr \<Rightarrow> addr \<Rightarrow> addr \<Rightarrow> addr \<Rightarrow> addr \<Rightarrow> addr \<Rightarrow> string \<Rightarrow> unit prog" where
  "classify_h oldMap newMap added_arr removed_arr changed_arr unchanged_arr name =
     bnd (get_prop_h oldMap name) (\<lambda>a.
     bnd (get_prop_h newMap name) (\<lambda>b.
       if \<not> truthy_h a \<and> truthy_h b then array_push added_arr b
       else if truthy_h a \<and> \<not> truthy_h b then array_push removed_arr a
       else compare_h changed_arr unchanged_arr name a b))"

text \<open>\<^verbatim>\<open>schema.fields\<close>.\<close>

definition get_fields :: "addr \<Rightarrow> addr option prog" where
  "get_fields s =
     bnd (load s) (\<lambda>obj. case obj of SchemaObj v \<Rightarrow> ret (o_fields v) | _ \<Rightarrow> ret None)"

definition diffSchemas_h :: "addr \<Rightarrow> addr \<Rightarrow> addr prog" where
  "diffSchemas_h oldSchema newSchema =
     bnd (get_fields oldSchema) (\<lambda>fo.
     bnd (buildFieldMap_h fo) (\<lambda>oldMap.
     bnd (get_fields newSchema) (\<lambda>fn.
     bnd (buildFieldMap_h fn) (\<lambda>newMap.
     bnd (alloc (ArrayObj [])) (\<lambda>added_arr.
     bnd (alloc (ArrayObj [])) (\<lambda>removed_arr.
     bnd (alloc (ArrayObj [])) (\<lambda>changed_arr.
     bnd (alloc (ArrayObj [])) (\<lambda>unchanged_arr.
     bnd (object_keys_h oldMap) (\<lambda>ko.
     bnd (object_keys_h newMap) (\<lambda>kn.
     bnd (for_each
            (classify_h oldMap newMap added_arr removed_arr changed_arr unchanged_arr)
            (array_from_set (ko @ kn))) (\<lambda>u.
     alloc (DiffObj added_arr removed_arr changed_arr unchanged_arr))))))))))))"

text \<open>
  \<^verbatim>\<open>computeStability\<close>: the loop over the adjacent pairs reads the lengths of the three
  arrays of each diff.
\<close>

definition is_stable_h :: "addr \<Rightarrow> bool prog" where
  "is_stable_h d =
     bnd (load d) (\<lambda>obj. case obj of
       DiffObj a r c u \<Rightarrow>
         bnd (read_array a) (\<lambda>as.
         bnd (read_array r) (\<lambda>rs.
         bnd (read_array c) (\<lambda>cs.
         ret (length as + length rs + length cs = 0))))
     | _ \<Rightarrow> throw TypeError)"

definition diff_values :: "hval \<Rightarrow> hval \<Rightarrow> addr prog" where
  "diff_values prev cur =
     (case (prev, cur) of
        (Ref p, Ref c) \<Rightarrow> diffSchemas_h p c
      | _ \<Rightarrow> throw TypeError)"

fun stability_loop_h :: "hval list \<Rightarrow> nat \<times> nat \<Rightarrow> (nat \<times> nat) prog" where
  "stability_loop_h (prev # cur # rest) (totalChecks, stableChecks) =
     bnd (diff_values prev cur) (\<lambda>d.
     bnd (is_stable_h d) (\<lambda>stable.
     stability_loop_h (cur # rest)
       (totalChecks + 1, if stable then stableChecks + 1 else stableChecks)))"
| "stability_loop_h history acc = ret acc"

definition computeStability_h :: "addr \<Rightarrow> int prog" where
  "computeStability_h history =
     bnd (read_array history) (\<lambda>vs.
       if length vs < 2 then ret 100
       else bnd (stability_loop_h vs (0, 0)) (\<lambda>(totalChecks, stableChecks).
              ret (math_round (fl (fl (of_nat stableChecks / of_nat totalChecks) * 100)))))"

text \<open>
  \<^verbatim>\<open>fieldTimeline\<close>. \<open>timeline_fields_h\<close> is \<^verbatim>\<open>s.schema?.fields || s.schema || []\<close>: the
  address of the array that is handed to \<^verbatim>\<open>buildFieldMap\<close>.
\<close>

definition timeline_fields_h :: "version_obj \<Rightarrow> addr prog" where
  "timeline_fields_h s =
     (case o_schema s of
        None \<Rightarrow> alloc (ArrayObj [])
      | Some sa \<Rightarrow>
          bnd (load sa) (\<lambda>obj. case obj of
            SchemaObj v \<Rightarrow> ret (case o_fields v of Some fa \<Rightarrow> fa | None \<Rightarrow> sa)
          | _ \<Rightarrow> ret sa))"

definition type_or_null_h :: "hval \<Rightarrow> string option prog" where
  "type_or_null_h v =
     (case v of
        Ref r \<Rightarrow> bnd (read_descriptor v) (\<lambda>f. ret (type_or_null (FieldObj f)))
      | Val j \<Rightarrow> ret (type_or_null j))"

definition nullable_flag_h :: "hval \<Rightarrow> bool prog" where
  "nullable_flag_h v =
     (case v of
        Ref r \<Rightarrow> bnd (read_descriptor v) (\<lambda>f. ret (f_nullable f))
      | Val j \<Rightarrow> ret (nullable_flag j))"

definition timeline_of_h :: "string \<Rightarrow> hval \<Rightarrow> addr prog" where
  "timeline_of_h fieldName sv =
     (case sv of
        Val j \<Rightarrow> throw TypeError
      | Ref sr \<Rightarrow>
          bnd (load sr) (\<lambda>obj. case obj of
            SchemaObj s \<Rightarrow>
              bnd (timeline_fields_h s) (\<lambda>fa.
              bnd (buildFieldMap_h (Some fa)) (\<lambda>m.
              bnd (get_prop_h m fieldName) (\<lambda>f.
              bnd (type_or_null_h f) (\<lambda>ty.
              bnd (nullable_flag_h f) (\<lambda>nu.
              alloc (TimelineObj
                \<lparr>t_version =
                   (case js_or (js_or (js_or (o_version s) (o_version s)) (o_id s))
                           (Some (Str ''v?'')) of
                      Some v \<Rightarrow> v
                    | None \<Rightarrow> Str ''v?''),
                 t_created_at = js_or (js_or (o_created_at s) (o_timestamp s)) None,
                 present = truthy_h f,
                 t_type = ty,
                 t_nullable = (if truthy_h f then Some nu else None)\<rparr>))))))
          | _ \<Rightarrow> throw TypeError))"

definition fieldTimeline_h :: "string \<Rightarrow> addr \<Rightarrow> addr prog" where
  "fieldTimeline_h fieldName history =
     bnd (read_array history) (\<lambda>vs.
     bnd (map_each (timeline_of_h fieldName) vs) (\<lambda>ts.
     alloc (ArrayObj (map Ref ts))))"

text \<open>The addresses that an object or array holds.\<close>

fun val_refs :: "hval \<Rightarrow> addr list" where
  "val_refs (Ref a) = [a]"
| "val_refs (Val j) = []"

fun opt_refs :: "addr option \<Rightarrow> addr list" where
  "opt_refs None = []"
| "opt_refs (Some a) = [a]"

fun refs_of :: "hobj \<Rightarrow> addr list" where
  "refs_of (RawObj f) = []"
| "refs_of (NormObj f) = []"
| "refs_of (ArrayObj vs) = concat (map val_refs vs)"
| "refs_of (DictObj ps p) = map snd ps @ opt_refs p"
| "refs_of (SchemaObj v) = opt_refs (o_fields v) @ opt_refs (o_schema v)"
| "refs_of (ChangeObj c) = []"
| "refs_of (DiffObj a r c u) = [a, r, c, u]"
| "refs_of (TimelineObj t) = []"

text \<open>
  \<open>owned n h\<close>: the cells of \<open>h\<close> beyond the first \<open>n\<close> hold no address of the first \<open>n\<close>
  cells. \<open>fresh_val n v\<close>: the value \<open>v\<close> is no reference to one of the first \<open>n\<close> cells.
\<close>

definition fresh_obj :: "nat \<Rightarrow> hobj \<Rightarrow> bool" where
  "fresh_obj n obj = list_all (\<lambda>b. n \<le> b) (refs_of obj)"

definition owned :: "nat \<Rightarrow> heap \<Rightarrow> bool" where
  "owned n h = list_all (fresh_obj n) (drop n h)"

fun fresh_val :: "nat \<Rightarrow> hval \<Rightarrow> bool" where
  "fresh_val n (Ref a) = (n \<le> a)"
| "fresh_val n (Val j) = True"

text \<open>
  \<open>valid n m Q\<close>: run on a store whose cells beyond the first \<open>n\<close> are owned, the program
  \<open>m\<close> leaves the first \<open>n\<close> cells as they are, removes no cell and keeps the other cells
  owned, whether it returns or throws; a result it returns satisfies \<open>Q\<close>.
\<close>

definition valid :: "nat \<Rightarrow> 'a prog \<Rightarrow> ('a \<Rightarrow> bool) \<Rightarrow> bool" where
  "valid n m Q =
     (\<forall>h. n \<le> length h \<and> owned n h \<longrightarrow>
        length h \<le> length (snd (m h)) \<and> take n (snd (m h)) = take n h
        \<and> owned n (snd (m h))
        \<and> (case fst (m h) of Inl e \<Rightarrow> True | Inr x \<Rightarrow> Q x))"

text \<open>What a program returns on a store, if it returns.\<close>

definition returns :: "'a prog \<Rightarrow> heap \<Rightarrow> ('a \<Rightarrow> bool) \<Rightarrow> bool" where
  "returns m h Q = (case fst (m h) of Inl e \<Rightarrow> True | Inr x \<Rightarrow> Q x)"


text \<open>Reading a diff and a time line back from the store.\<close>

definition cell :: "heap \<Rightarrow> addr \<Rightarrow> hobj option" where
  "cell h a = (if a < length h then Some (h ! a) else None)"

definition val_at :: "heap \<Rightarrow> hval \<Rightarrow> jsval" where
  "val_at h v =
     (case v of
        Val j \<Rightarrow> j
      | Ref a \<Rightarrow> (case cell h a of Some (NormObj f) \<Rightarrow> FieldObj f | _ \<Rightarrow> Undefined))"

definition array_at :: "heap \<Rightarrow> addr \<Rightarrow> hval list" where
  "array_at h a = (case cell h a of Some (ArrayObj vs) \<Rightarrow> vs | _ \<Rightarrow> [])"

definition change_at :: "heap \<Rightarrow> hval \<Rightarrow> change list" where
  "change_at h v =
     (case v of
        Val j \<Rightarrow> []
      | Ref a \<Rightarrow> (case cell h a of Some (ChangeObj c) \<Rightarrow> [c] | _ \<Rightarrow> []))"

definition diff_at :: "heap \<Rightarrow> addr \<Rightarrow> diff" where
  "diff_at h d =
     (case cell h d of
        Some (DiffObj a r c u) \<Rightarrow>
          \<lparr>added = map (val_at h) (array_at h a),
           removed = map (val_at h) (array_at h r),
           changed = concat (map (change_at h) (array_at h c)),
           unchanged = map (val_at h) (array_at h u)\<rparr>
      | _ \<Rightarrow> empty_diff)"

definition timeline_at :: "heap \<Rightarrow> addr \<Rightarrow> timeline_entry list" where
  "timeline_at h t =
     concat (map (\<lambda>v. case v of
                        Val j \<Rightarrow> []
                      | Ref a \<Rightarrow> (case cell h a of Some (TimelineObj e) \<Rightarrow> [e] | _ \<Rightarrow> []))
             (array_at h t))"

text \<open>
  A store with the two schemas of scenario 2 (cells 3 and 8), their field lists (cells 2
  and 7) and a history of the two (cell 9).
\<close>

definition no_version :: version_obj where
  "no_version = \<lparr>o_fields = None, o_schema = None, o_version = None, o_id = None,
                  o_created_at = None, o_timestamp = None\<rparr>"

definition example_store :: heap where
  "example_store =
     [RawObj (plain_field ''id'' ''string''), RawObj (plain_field ''price'' ''string''),
      ArrayObj [Ref 0, Ref 1],
      SchemaObj (no_version\<lparr>o_fields := Some 2\<rparr>),
      RawObj (plain_field ''id'' ''string''), RawObj (plain_field ''price'' ''decimal''),
      RawObj (plain_field ''currency'' ''string''),
      ArrayObj [Ref 4, Ref 5, Ref 6],
      SchemaObj (no_version\<lparr>o_fields := Some 7\<rparr>),
      ArrayObj [Ref 3, Ref 8]]"

section \<open>The two embeddings agree\<close>

text \<open>\<open>runs m h x h'\<close>: started on the store \<open>h\<close>, the program returns \<open>x\<close> and the store \<open>h'\<close>.\<close>

definition runs :: "'a prog \<Rightarrow> heap \<Rightarrow> 'a \<Rightarrow> heap \<Rightarrow> bool" where
  "runs m h x h' = (m h = (Inr x, h'))"

text \<open>
  \<open>desc_at h v f\<close>: the value \<open>v\<close> refers to a descriptor in \<open>h\<close> whose normal form is \<open>f\<close>.
  \<open>norm_at h a f\<close>: the cell \<open>a\<close> of \<open>h\<close> is the internal descriptor \<open>f\<close>.
\<close>

definition norm_at :: "heap \<Rightarrow> addr \<Rightarrow> nfield \<Rightarrow> bool" where
  "norm_at h a f = (a < length h \<and> h ! a = NormObj f)"

definition desc_at :: "heap \<Rightarrow> hval \<Rightarrow> nfield \<Rightarrow> bool" where
  "desc_at h v f =
     (case v of
        Val j \<Rightarrow> False
      | Ref r \<Rightarrow> r < length h
                 \<and> (case h ! r of
                      RawObj raw \<Rightarrow> f = normalizeField raw
                    | NormObj g \<Rightarrow> f = g
                    | _ \<Rightarrow> False))"

text \<open>\<open>stable h h'\<close>: the store \<open>h'\<close> has all descriptors of \<open>h\<close>, where they were.\<close>

fun is_descriptor :: "hobj \<Rightarrow> bool" where
  "is_descriptor (RawObj f) = True"
| "is_descriptor (NormObj f) = True"
| "is_descriptor obj = False"

definition stable :: "heap \<Rightarrow> heap \<Rightarrow> bool" where
  "stable h h' =
     (length h \<le> length h'
      \<and> list_all (\<lambda>a. if is_descriptor (h ! a) then h' ! a = h ! a else True) [0..<length h])"

text \<open>\<open>dict_rel h ps p m\<close>: the dictionary with own properties \<open>ps\<close> and prototype \<open>p\<close> in the
  store \<open>h\<close> is the dictionary \<open>m\<close>.\<close>

definition dict_rel :: "heap \<Rightarrow> (string \<times> addr) list \<Rightarrow> addr option \<Rightarrow> field_map \<Rightarrow> bool" where
  "dict_rel h ps p m =
     (list_all2 (\<lambda>x y. fst x = fst y \<and> norm_at h (snd x) (snd y)) ps (own m)
      \<and> rel_option (norm_at h) p (proto m))"

text \<open>\<open>fields_at h flds fs\<close>: \<open>flds\<close> is absent or a field list in \<open>h\<close>, with the normal forms \<open>fs\<close>.\<close>

definition fields_at :: "heap \<Rightarrow> addr option \<Rightarrow> nfield list \<Rightarrow> bool" where
  "fields_at h flds fs =
     (case flds of
        None \<Rightarrow> fs = []
      | Some a \<Rightarrow> a < length h
                 \<and> (case h ! a of ArrayObj vs \<Rightarrow> list_all2 (desc_at h) vs fs | _ \<Rightarrow> False))"

text \<open>\<open>good_val h v\<close>: a reference \<open>v\<close> refers to an internal descriptor of \<open>h\<close>.\<close>

definition good_val :: "heap \<Rightarrow> hval \<Rightarrow> bool" where
  "good_val h v = (case v of Val j \<Rightarrow> True | Ref r \<Rightarrow> (\<exists>f. norm_at h r f))"

text \<open>The four groups in the arrays at \<open>a\<close>, \<open>r\<close>, \<open>c\<close> and \<open>u\<close> of the store.\<close>

definition groups_at :: "heap \<Rightarrow> addr \<Rightarrow> addr \<Rightarrow> addr \<Rightarrow> addr \<Rightarrow> diff" where
  "groups_at h a r c u =
     \<lparr>added = map (val_at h) (array_at h a),
      removed = map (val_at h) (array_at h r),
      changed = concat (map (change_at h) (array_at h c)),
      unchanged = map (val_at h) (array_at h u)\<rparr>"

definition is_array :: "heap \<Rightarrow> addr \<Rightarrow> bool" where
  "is_array h a = (a < length h \<and> (case h ! a of ArrayObj vs \<Rightarrow> True | _ \<Rightarrow> False))"

definition in_store :: "heap \<Rightarrow> hval \<Rightarrow> bool" where
  "in_store h v = (case v of Val j \<Rightarrow> True | Ref r \<Rightarrow> r < length h)"

definition is_dict :: "heap \<Rightarrow> addr \<Rightarrow> field_map \<Rightarrow> bool" where
  "is_dict h a m = (\<exists>ps p. a < length h \<and> h ! a = DictObj ps p \<and> dict_rel h ps p m)"

text \<open>
  The invariant of the loop of \<open>diffSchemas_h\<close>: the two dictionaries are \<open>om\<close> and \<open>nm\<close>,
  and the four arrays hold the groups of \<open>d\<close>.
\<close>

definition loop_inv ::
  "heap \<Rightarrow> addr \<Rightarrow> addr \<Rightarrow> field_map \<Rightarrow> field_map \<Rightarrow> addr \<Rightarrow> addr \<Rightarrow> addr \<Rightarrow> addr \<Rightarrow> diff \<Rightarrow> bool"
  where
  "loop_inv h oa na om nm a r c u d =
     (is_dict h oa om \<and> is_dict h na nm
      \<and> is_array h a \<and> is_array h r \<and> is_array h c \<and> is_array h u \<and> distinct [a, r, c, u]
      \<and> list_all (in_store h) (array_at h c)
      \<and> groups_at h a r c u = d)"

text \<open>
  \<open>schema_at h s sch\<close>: the cell \<open>s\<close> of the store holds a schema object whose \<^verbatim>\<open>fields\<close> is
  absent, or an array of raw descriptors, and \<open>sch\<close> is that schema.
\<close>

definition raw_at :: "heap \<Rightarrow> hval \<Rightarrow> raw_field \<Rightarrow> bool" where
  "raw_at h v f = (case v of Val j \<Rightarrow> False | Ref r \<Rightarrow> r < length h \<and> h ! r = RawObj f)"

definition schema_at :: "heap \<Rightarrow> addr \<Rightarrow> schema \<Rightarrow> bool" where
  "schema_at h s sch =
     (s < length h
      \<and> (case h ! s of
           SchemaObj v \<Rightarrow>
             (case o_fields v of
                None \<Rightarrow> schema_fields sch = None
              | Some a \<Rightarrow>
                  a < length h
                  \<and> (case (h ! a, schema_fields sch) of
                        (ArrayObj vs, Some raws) \<Rightarrow> list_all2 (raw_at h) vs raws
                      | _ \<Rightarrow> False))
         | _ \<Rightarrow> False))"

lemma last_field_snoc:
  "last_field (fs @ [f]) n = (if f_name f = n then Some f else last_field fs n)"
  by (simp add: last_field_def)

lemma last_field_Nil: "last_field [] n = None"
  by (simp add: last_field_def)

lemma find_SomeD: "find P xs = Some x \<Longrightarrow> x \<in> set xs \<and> P x"
  by (induction xs) (auto split: if_splits)

lemma last_field_SomeD: "last_field fs n = Some f \<Longrightarrow> f \<in> set fs \<and> f_name f = n"
  by (auto simp: last_field_def dest: find_SomeD)

lemma last_field_None_iff: "last_field fs n = None \<longleftrightarrow> n \<notin> f_name ` set fs"
  by (auto simp: last_field_def find_None_iff)

lemma fill_snoc: "fill m (fs @ [f]) = set_prop (fill m fs) (f_name f) f"
  by (simp add: fill_def)

lemma map_of_own_fill:
  "map_of (own (fill m fs)) n =
     (if n = ''__proto__'' then map_of (own m) n
      else case last_field fs n of Some f \<Rightarrow> Some f | None \<Rightarrow> map_of (own m) n)"
proof (induction fs rule: rev_induct)
  case Nil
  show ?case by (simp add: fill_def last_field_Nil)
next
  case (snoc f fs)
  then show ?case
    by (auto simp: fill_snoc set_prop_def last_field_snoc update_conv')
qed

lemma proto_fill:
  "proto (fill m fs) = (case last_field fs ''__proto__'' of Some f \<Rightarrow> Some f | None \<Rightarrow> proto m)"
proof (induction fs rule: rev_induct)
  case Nil
  show ?case by (simp add: fill_def last_field_Nil)
next
  case (snoc f fs)
  show ?case
    by (simp add: fill_snoc set_prop_def last_field_snoc snoc)
qed

lemma keys_fill:
  "fst ` set (own (fill m fs)) = fst ` set (own m) \<union> (f_name ` set fs - {''__proto__''})"
proof (induction fs rule: rev_induct)
  case Nil
  show ?case by (simp add: fill_def)
next
  case (snoc f fs)
  then show ?case
    by (auto simp: fill_snoc set_prop_def dom_update)
qed

lemma distinct_fill:
  "distinct (map fst (own m)) \<Longrightarrow> distinct (map fst (own (fill m fs)))"
proof (induction fs rule: rev_induct)
  case Nil
  then show ?case by (simp add: fill_def)
next
  case (snoc f fs)
  then show ?case
    by (simp add: fill_snoc set_prop_def distinct_update)
qed

lemma buildFieldMap_fill: "buildFieldMap flds = fill empty_object (normalizeFieldsArray flds)"
  by (simp add: buildFieldMap_def fill_def)

lemma map_of_own_buildFieldMap:
  "map_of (own (buildFieldMap flds)) n =
     (if n = ''__proto__'' then None else last_field (normalizeFieldsArray flds) n)"
  by (simp add: buildFieldMap_fill map_of_own_fill empty_object_def split: option.splits)

lemma proto_buildFieldMap:
  "proto (buildFieldMap flds) = last_field (normalizeFieldsArray flds) ''__proto__''"
  by (simp add: buildFieldMap_fill proto_fill empty_object_def split: option.splits)

lemma keys_buildFieldMap:
  "fst ` set (own (buildFieldMap flds)) = f_name ` set (normalizeFieldsArray flds) - {''__proto__''}"
  by (simp add: buildFieldMap_fill keys_fill empty_object_def)

lemma distinct_buildFieldMap: "distinct (map fst (own (buildFieldMap flds)))"
  by (simp add: buildFieldMap_fill distinct_fill empty_object_def)

lemma set_own_property_keys: "set (own_property_keys ks) = set ks"
  by (auto simp: own_property_keys_def)

lemma distinct_own_property_keys: "distinct ks \<Longrightarrow> distinct (own_property_keys ks)"
  by (auto simp: own_property_keys_def)

lemma set_object_keys: "set (object_keys m) = fst ` set (own m)"
  by (simp add: object_keys_def set_own_property_keys)

lemma distinct_object_keys: "distinct (map fst (own m)) \<Longrightarrow> distinct (object_keys m)"
  by (simp add: object_keys_def distinct_own_property_keys)

lemma set_foldl_set_add: "set (foldl set_add acc xs) = set acc \<union> set xs"
  by (induction xs arbitrary: acc) (auto simp: set_add_def)

lemma distinct_foldl_set_add: "distinct acc \<Longrightarrow> distinct (foldl set_add acc xs)"
  by (induction xs arbitrary: acc) (auto simp: set_add_def)

lemma set_array_from_set: "set (array_from_set xs) = set xs"
  by (simp add: array_from_set_def set_foldl_set_add)

lemma distinct_array_from_set: "distinct (array_from_set xs)"
  by (simp add: array_from_set_def distinct_foldl_set_add)

lemma set_allNames:
  "set (allNames (buildFieldMap o1) (buildFieldMap n1)) =
     (f_name ` set (normalizeFieldsArray o1) \<union> f_name ` set (normalizeFieldsArray n1)) - {''__proto__''}"
  by (auto simp: allNames_def set_array_from_set set_object_keys keys_buildFieldMap)

lemma distinct_allNames: "distinct (allNames om nm)"
  by (simp add: allNames_def distinct_array_from_set)

lemma forEach_eq:
  "map (classify om nm) ns = map Inr es \<Longrightarrow> forEach om nm ns d = Inr (foldl push d es)"
  by (induction ns arbitrary: es d) auto

lemma foldl_push:
  "foldl push d es =
     \<lparr>added = added d @ concat (map added_of es),
      removed = removed d @ concat (map removed_of es),
      changed = changed d @ concat (map changed_of es),
      unchanged = unchanged d @ concat (map unchanged_of es)\<rparr>"
proof (induction es arbitrary: d)
  case Nil
  show ?case by simp
next
  case (Cons e es)
  show ?case by (cases e) (simp_all add: Cons)
qed

lemma get_prop_own:
  "map_of (own m) n = Some f \<Longrightarrow> get_prop m n = FieldObj f"
  by (simp add: get_prop_def)

lemma classify_own_total:
  assumes "n \<in> fst ` set (own om) \<or> n \<in> fst ` set (own nm)"
  shows "\<exists>e. classify om nm n = Inr e"
proof -
  from assms have "(\<exists>f. get_prop om n = FieldObj f) \<or> (\<exists>f. get_prop nm n = FieldObj f)"
    by (metis get_prop_own weak_map_of_SomeI map_of_eq_None_iff not_None_eq)
  then show ?thesis
    by (cases "get_prop om n"; cases "get_prop nm n")
       (auto simp: classify_def compare_def Let_def)
qed

lemma set_allNames_own:
  "set (allNames om nm) = fst ` set (own om) \<union> fst ` set (own nm)"
  by (simp add: allNames_def set_array_from_set set_object_keys)

lemma classify_the_entry:
  assumes "n \<in> set (allNames om nm)"
  shows "classify om nm n = Inr (the_entry om nm n)"
proof -
  from assms obtain e where "classify om nm n = Inr e"
    using classify_own_total [of n om nm] by (auto simp: set_allNames_own)
  then show ?thesis by (simp add: the_entry_def)
qed

lemma classify_allNames:
  "map (classify om nm) (allNames om nm) = map Inr (map (the_entry om nm) (allNames om nm))"
  by (simp add: classify_the_entry)

lemma diffSchemas_entries:
  "diffSchemas old new =
     Inr \<lparr>added = concat (map added_of (entries old new)),
          removed = concat (map removed_of (entries old new)),
          changed = concat (map changed_of (entries old new)),
          unchanged = concat (map unchanged_of (entries old new))\<rparr>"
  by (simp add: diffSchemas_def Let_def entries_def forEach_eq [OF classify_allNames]
      foldl_push empty_diff_def)

lemma get_prop_buildFieldMap_own:
  "n \<noteq> ''__proto__'' \<Longrightarrow> last_field (normalizeFieldsArray flds) n = Some f
     \<Longrightarrow> get_prop (buildFieldMap flds) n = FieldObj f"
  by (simp add: get_prop_def map_of_own_buildFieldMap)


lemma compare_fields:
  "compare n (FieldObj a) (FieldObj b) =
     Inr (if differ a b then Changed ((change_of a b)\<lparr>c_name := n\<rparr>) else Unchanged (FieldObj b))"
  by (auto simp: compare_def differ_def change_of_def or_empty_def to_bool_def)

lemma classify_both:
  "get_prop om n = FieldObj a \<Longrightarrow> get_prop nm n = FieldObj b \<Longrightarrow>
   classify om nm n =
     Inr (if differ a b then Changed ((change_of a b)\<lparr>c_name := n\<rparr>) else Unchanged (FieldObj b))"
  by (simp add: classify_def compare_fields)

lemma compare_not_Added: "compare n a b \<noteq> Inr (Added v)"
  by (auto simp: compare_def Let_def split: sum.splits)

lemma compare_not_Removed: "compare n a b \<noteq> Inr (Removed v)"
  by (auto simp: compare_def Let_def split: sum.splits)

lemma compare_Changed_name: "compare n a b = Inr (Changed c) \<Longrightarrow> c_name c = n"
  by (auto simp: compare_def Let_def split: sum.splits if_splits)

lemma classify_AddedD:
  "classify om nm n = Inr (Added v) \<Longrightarrow> \<not> truthy (get_prop om n) \<and> v = get_prop nm n"
  by (auto simp: classify_def Let_def compare_not_Added split: if_splits)

lemma classify_RemovedD:
  "classify om nm n = Inr (Removed v) \<Longrightarrow> \<not> truthy (get_prop nm n) \<and> v = get_prop om n"
  by (auto simp: classify_def Let_def compare_not_Removed split: if_splits)

lemma classify_ChangedD:
  "classify om nm n = Inr (Changed c) \<Longrightarrow> c_name c = n"
  by (auto simp: classify_def Let_def compare_Changed_name split: if_splits)

lemma allNames_cases:
  assumes "n \<in> set (allNames (buildFieldMap fo) (buildFieldMap fn))"
  shows "n \<noteq> ''__proto__''"
    and "last_field (normalizeFieldsArray fo) n \<noteq> None \<or> last_field (normalizeFieldsArray fn) n \<noteq> None"
  using assms by (auto simp: set_allNames last_field_None_iff)

lemma entry_Added:
  assumes n: "n \<in> set (allNames (buildFieldMap fo) (buildFieldMap fn))"
    and e: "the_entry (buildFieldMap fo) (buildFieldMap fn) n = Added v"
  shows "\<exists>b. v = FieldObj b \<and> last_field (normalizeFieldsArray fn) n = Some b
           \<and> last_field (normalizeFieldsArray fo) n = None"
proof -
  from n e have c: "classify (buildFieldMap fo) (buildFieldMap fn) n = Inr (Added v)"
    by (simp add: classify_the_entry)
  note p = allNames_cases [OF n]
  from classify_AddedD [OF c]
  have f: "\<not> truthy (get_prop (buildFieldMap fo) n)" and v: "v = get_prop (buildFieldMap fn) n"
    by simp_all
  have o: "last_field (normalizeFieldsArray fo) n = None"
  proof (rule ccontr)
    assume "last_field (normalizeFieldsArray fo) n \<noteq> None"
    then obtain a where "last_field (normalizeFieldsArray fo) n = Some a" by auto
    with p(1) have "get_prop (buildFieldMap fo) n = FieldObj a"
      by (simp add: get_prop_buildFieldMap_own)
    with f show False by simp
  qed
  with p(2) obtain b where b: "last_field (normalizeFieldsArray fn) n = Some b" by auto
  with p(1) v have "v = FieldObj b" by (simp add: get_prop_buildFieldMap_own)
  with o b show ?thesis by simp
qed

lemma entry_Removed:
  assumes n: "n \<in> set (allNames (buildFieldMap fo) (buildFieldMap fn))"
    and e: "the_entry (buildFieldMap fo) (buildFieldMap fn) n = Removed v"
  shows "\<exists>a. v = FieldObj a \<and> last_field (normalizeFieldsArray fo) n = Some a
           \<and> last_field (normalizeFieldsArray fn) n = None"
proof -
  from n e have c: "classify (buildFieldMap fo) (buildFieldMap fn) n = Inr (Removed v)"
    by (simp add: classify_the_entry)
  note p = allNames_cases [OF n]
  from classify_RemovedD [OF c]
  have f: "\<not> truthy (get_prop (buildFieldMap fn) n)" and v: "v = get_prop (buildFieldMap fo) n"
    by simp_all
  have o: "last_field (normalizeFieldsArray fn) n = None"
  proof (rule ccontr)
    assume "last_field (normalizeFieldsArray fn) n \<noteq> None"
    then obtain b where "last_field (normalizeFieldsArray fn) n = Some b" by auto
    with p(1) have "get_prop (buildFieldMap fn) n = FieldObj b"
      by (simp add: get_prop_buildFieldMap_own)
    with f show False by simp
  qed
  with p(2) obtain a where a: "last_field (normalizeFieldsArray fo) n = Some a" by auto
  with p(1) v have "v = FieldObj a" by (simp add: get_prop_buildFieldMap_own)
  with o a show ?thesis by simp
qed

lemma entry_Changed:
  assumes n: "n \<in> set (allNames (buildFieldMap fo) (buildFieldMap fn))"
    and e: "the_entry (buildFieldMap fo) (buildFieldMap fn) n = Changed c"
  shows "c_name c = n"
  using classify_ChangedD [of "buildFieldMap fo" "buildFieldMap fn" n c] n e
  by (simp add: classify_the_entry)

lemma entry_both:
  assumes "n \<noteq> ''__proto__''"
    and "last_field (normalizeFieldsArray fo) n = Some a"
    and "last_field (normalizeFieldsArray fn) n = Some b"
  shows "the_entry (buildFieldMap fo) (buildFieldMap fn) n =
           (if differ a b then Changed ((change_of a b)\<lparr>c_name := n\<rparr>) else Unchanged (FieldObj b))"
  using assms by (simp add: the_entry_def classify_both get_prop_buildFieldMap_own)




lemma in_added_of: "v \<in> set (added_of e) \<longleftrightarrow> e = Added v"
  by (cases e) auto

lemma in_removed_of: "v \<in> set (removed_of e) \<longleftrightarrow> e = Removed v"
  by (cases e) auto

lemma in_changed_of: "c \<in> set (changed_of e) \<longleftrightarrow> e = Changed c"
  by (cases e) auto

lemma in_unchanged_of: "v \<in> set (unchanged_of e) \<longleftrightarrow> e = Unchanged v"
  by (cases e) auto

lemma diffSchemas_groups:
  obtains d where "diffSchemas old new = Inr d"
    and "\<And>v. v \<in> set (added d) \<longleftrightarrow> Added v \<in> set (entries old new)"
    and "\<And>v. v \<in> set (removed d) \<longleftrightarrow> Removed v \<in> set (entries old new)"
    and "\<And>c. c \<in> set (changed d) \<longleftrightarrow> Changed c \<in> set (entries old new)"
    and "\<And>v. v \<in> set (unchanged d) \<longleftrightarrow> Unchanged v \<in> set (entries old new)"
proof -
  let ?d = "\<lparr>added = concat (map added_of (entries old new)),
            removed = concat (map removed_of (entries old new)),
            changed = concat (map changed_of (entries old new)),
            unchanged = concat (map unchanged_of (entries old new))\<rparr>"
  have "diffSchemas old new = Inr ?d" by (rule diffSchemas_entries)
  moreover have "v \<in> set (added ?d) \<longleftrightarrow> Added v \<in> set (entries old new)" for v
    by (auto simp: in_added_of)
  moreover have "v \<in> set (removed ?d) \<longleftrightarrow> Removed v \<in> set (entries old new)" for v
    by (auto simp: in_removed_of)
  moreover have "c \<in> set (changed ?d) \<longleftrightarrow> Changed c \<in> set (entries old new)" for c
    by (auto simp: in_changed_of)
  moreover have "v \<in> set (unchanged ?d) \<longleftrightarrow> Unchanged v \<in> set (entries old new)" for v
    by (auto simp: in_unchanged_of)
  ultimately show ?thesis by (rule that)
qed

lemma entries_iff:
  "e \<in> set (entries old new) \<longleftrightarrow>
     (\<exists>n \<in> set (allNames (buildFieldMap (schema_fields old)) (buildFieldMap (schema_fields new))).
        e = the_entry (buildFieldMap (schema_fields old)) (buildFieldMap (schema_fields new)) n)"
  by (auto simp: entries_def Let_def)


lemmas eval_defs =
  diffSchemas_def buildFieldMap_def normalizeFieldsArray_def normalizeField_def
  set_prop_def allNames_def object_keys_def own_property_keys_def array_from_set_def set_add_def classify_def
  get_prop_def compare_def is_array_index_def is_digit_def empty_object_def empty_diff_def
  object_prototype_get_def object_prototype_keys_def field_own_prop_def or_empty_def
  to_bool_def plain_field_def required_field_def Let_def

text \<open>
  C1 (the code at the failing input). The new schema adds a field named
  \<^verbatim>\<open>constructor\<close>. The old dictionary has no such own property, but the read
  \<^verbatim>\<open>oldMap['constructor']\<close> yields the inherited \<^verbatim>\<open>Object\<close> function, which is truthy:
  the field is not put into \<open>added\<close> but compared with that function and reported as
  changed, with an undefined \<open>before\<close>.
\<close>

theorem diffSchemas_constructor_not_added:
  "diffSchemas \<lparr>schema_fields = Some []\<rparr>
     \<lparr>schema_fields = Some [plain_field ''constructor'' ''string'']\<rparr> =
   Inr \<lparr>added = [], removed = [],
        changed = [\<lparr>c_name = ''constructor'',
                    before = \<lparr>s_type = None, s_nullable = None\<rparr>,
                    after = \<lparr>s_type = Some ''string'', s_nullable = Some True\<rparr>,
                    diffs = [''type'', ''nullable'']\<rparr>],
        unchanged = []\<rparr>"
  by (simp add: eval_defs)

text \<open>
  C2 (the code at the failing input). The old schema has a field named \<^verbatim>\<open>toString\<close>,
  the new schema has no field at all. \<^verbatim>\<open>newMap['toString']\<close> is the inherited method, so
  the field is not removed but reported as changed, although it does not exist in the new
  schema.
\<close>

theorem diffSchemas_toString_changed:
  "diffSchemas \<lparr>schema_fields = Some [plain_field ''toString'' ''string'']\<rparr>
     \<lparr>schema_fields = Some []\<rparr> =
   Inr \<lparr>added = [], removed = [],
        changed = [\<lparr>c_name = ''toString'',
                    before = \<lparr>s_type = Some ''string'', s_nullable = Some True\<rparr>,
                    after = \<lparr>s_type = None, s_nullable = None\<rparr>,
                    diffs = [''type'', ''nullable'']\<rparr>],
        unchanged = []\<rparr>"
  by (simp add: eval_defs)




text \<open>
  The path \<^verbatim>\<open>__proto__\<close> with the same descriptor in both schemas: the four groups are
  empty.
\<close>

lemma diffSchemas_proto_unchanged_example:
  "diffSchemas \<lparr>schema_fields = Some [plain_field ''__proto__'' ''string'']\<rparr>
     \<lparr>schema_fields = Some [plain_field ''__proto__'' ''string'']\<rparr> =
   Inr \<lparr>added = [], removed = [], changed = [], unchanged = []\<rparr>"
  by (simp add: eval_defs)

text \<open>
  C4 (the code at the failing input). The old schema has the single field \<^verbatim>\<open>__proto__\<close>.
  The assignment \<^verbatim>\<open>map['__proto__'] = {...}\<close> replaces the prototype of the dictionary
  and creates no property, so \<^verbatim>\<open>Object.keys\<close> does not list the name: the field is
  assigned to no group at all.
\<close>

theorem diffSchemas_proto_in_no_group:
  "diffSchemas \<lparr>schema_fields = Some [plain_field ''__proto__'' ''string'']\<rparr>
     \<lparr>schema_fields = Some []\<rparr> =
   Inr \<lparr>added = [], removed = [], changed = [], unchanged = []\<rparr>"
  by (simp add: eval_defs)

text \<open>
  C5. Scenario 2 of the specification: version 1 has \<open>id\<close> and \<open>price\<close> of type string,
  version 2 has \<open>id\<close> unchanged, \<open>price\<close> of type decimal and the new field \<open>currency\<close>.
  Whatever the types of \<open>id\<close> and \<open>currency\<close>, the diff has exactly \<open>currency\<close> in
  \<open>added\<close>, nothing in \<open>removed\<close> and exactly \<open>price\<close> in \<open>changed\<close>, from type string to
  type decimal.
\<close>

theorem diffSchemas_scenario_2:
  "diffSchemas
     \<lparr>schema_fields = Some [plain_field ''id'' t, plain_field ''price'' ''string'']\<rparr>
     \<lparr>schema_fields = Some [plain_field ''id'' t, plain_field ''price'' ''decimal'',
                             plain_field ''currency'' u]\<rparr> =
   Inr \<lparr>added = [FieldObj \<lparr>f_name = ''currency'', f_type = u, f_nullable = True,
                            f_new = False\<rparr>],
        removed = [],
        changed = [\<lparr>c_name = ''price'',
                    before = \<lparr>s_type = Some ''string'', s_nullable = Some True\<rparr>,
                    after = \<lparr>s_type = Some ''decimal'', s_nullable = Some True\<rparr>,
                    diffs = [''type'']\<rparr>],
        unchanged = [FieldObj \<lparr>f_name = ''id'', f_type = t, f_nullable = True,
                                f_new = False\<rparr>]\<rparr>"
  by (simp add: eval_defs)

text \<open>
  C9 (the code at the failing input). The path \<^verbatim>\<open>__proto__\<close> is present in both schemas,
  required in the old one and nullable by default in the new one. Neither dictionary
  lists the name, so the diff reports no nullability change.
\<close>

theorem diffSchemas_proto_nullable_unreported:
  "diffSchemas \<lparr>schema_fields = Some [required_field ''__proto__'' ''string'']\<rparr>
     \<lparr>schema_fields = Some [plain_field ''__proto__'' ''string'']\<rparr> =
   Inr \<lparr>added = [], removed = [], changed = [], unchanged = []\<rparr>"
  by (simp add: eval_defs)

text \<open>
  C10 (the code at the failing input). The only version has no field, yet the time line
  of the name \<^verbatim>\<open>constructor\<close> shows it as present: \<^verbatim>\<open>map['constructor']\<close> is the
  inherited \<^verbatim>\<open>Object\<close> function.
\<close>

theorem fieldTimeline_constructor_present:
  "fieldTimeline ''constructor''
     [\<lparr>v_schema = Some (SchemaObject \<lparr>schema_fields = Some []\<rparr>), v_version = Some (Num 1),
       v_id = None, v_created_at = None, v_timestamp = None\<rparr>] =
   Inr [\<lparr>t_version = Num 1, t_created_at = None, present = True, t_type = None,
         t_nullable = Some False\<rparr>]"
  by (simp add: timeline_of_def js_or_def eval_defs)


lemma get_prop_plain:
  assumes "''__proto__'' \<notin> f_name ` set (normalizeFieldsArray flds)"
    and "n \<notin> set object_prototype_keys"
  shows "get_prop (buildFieldMap flds) n =
           (case last_field (normalizeFieldsArray flds) n of
              Some f \<Rightarrow> FieldObj f | None \<Rightarrow> Undefined)"
proof -
  from assms(2) have n: "n \<noteq> ''__proto__''"
    by (auto simp: object_prototype_keys_def)
  from assms(1) have "proto (buildFieldMap flds) = None"
    by (simp add: proto_buildFieldMap last_field_None_iff)
  with n assms(2) show ?thesis
    by (simp add: get_prop_def map_of_own_buildFieldMap object_prototype_get_def
        split: option.splits)
qed

lemma plain_names_iff:
  "plain_names s \<longleftrightarrow> (\<forall>n \<in> set (field_names s). n \<notin> set object_prototype_keys)"
  by (simp add: plain_names_def list_all_iff)

lemma plain_names_no_proto:
  "plain_names s \<Longrightarrow> ''__proto__'' \<notin> f_name ` set (normalizeFieldsArray (schema_fields s))"
  by (auto simp: plain_names_iff field_names_def object_prototype_keys_def)

lemma set_allNames_schemas:
  "plain_names old \<Longrightarrow> plain_names new \<Longrightarrow>
   set (allNames (buildFieldMap (schema_fields old)) (buildFieldMap (schema_fields new)))
     = set (field_names old) \<union> set (field_names new)"
  using plain_names_no_proto [of old] plain_names_no_proto [of new]
  by (auto simp: set_allNames field_names_def)

lemma the_entry_plain:
  assumes p: "plain_names old" "plain_names new"
    and n: "n \<in> set (field_names old) \<union> set (field_names new)"
  shows "the_entry (buildFieldMap (schema_fields old)) (buildFieldMap (schema_fields new)) n
           = expected_entry (normalizeFieldsArray (schema_fields old))
               (normalizeFieldsArray (schema_fields new)) n"
proof -
  let ?O = "normalizeFieldsArray (schema_fields old)" and ?N = "normalizeFieldsArray (schema_fields new)"
  from p n have k: "n \<notin> set object_prototype_keys" by (auto simp: plain_names_iff)
  note go = get_prop_plain [OF plain_names_no_proto [OF p(1)] k]
    and gn = get_prop_plain [OF plain_names_no_proto [OF p(2)] k]
  from n have "last_field ?O n \<noteq> None \<or> last_field ?N n \<noteq> None"
    by (auto simp: last_field_None_iff field_names_def)
  then consider
      (added) b where "last_field ?O n = None" "last_field ?N n = Some b"
    | (removed) a where "last_field ?O n = Some a" "last_field ?N n = None"
    | (both) a b where "last_field ?O n = Some a" "last_field ?N n = Some b"
    by (cases "last_field ?O n"; cases "last_field ?N n") auto
  then show ?thesis
  proof cases
    case added
    then show ?thesis
      by (simp add: the_entry_def classify_def go gn expected_entry_def)
  next
    case removed
    then show ?thesis
      by (simp add: the_entry_def classify_def go gn expected_entry_def)
  next
    case both
    from last_field_SomeD [OF both(1)] have "(change_of a b)\<lparr>c_name := n\<rparr> = change_of a b"
      by (simp add: change_of_def)
    with both show ?thesis
      by (simp add: the_entry_def classify_def go gn expected_entry_def compare_fields)
  qed
qed

lemma entries_plain:
  assumes "plain_names old" "plain_names new"
  shows "set (entries old new) =
           expected_entry (normalizeFieldsArray (schema_fields old))
             (normalizeFieldsArray (schema_fields new))
           ` (set (field_names old) \<union> set (field_names new))"
proof -
  have "set (entries old new) =
      the_entry (buildFieldMap (schema_fields old)) (buildFieldMap (schema_fields new))
        ` (set (field_names old) \<union> set (field_names new))"
    by (simp add: entries_def Let_def set_allNames_schemas [OF assms])
  also have "\<dots> = expected_entry (normalizeFieldsArray (schema_fields old))
             (normalizeFieldsArray (schema_fields new))
           ` (set (field_names old) \<union> set (field_names new))"
    by (rule image_cong) (simp_all add: the_entry_plain [OF assms])
  finally show ?thesis .
qed

lemma last_field_distinct:
  "distinct (map f_name fs) \<Longrightarrow> last_field fs n = Some f \<longleftrightarrow> f \<in> set fs \<and> f_name f = n"
proof
  assume "last_field fs n = Some f"
  then show "f \<in> set fs \<and> f_name f = n" by (rule last_field_SomeD)
next
  assume d: "distinct (map f_name fs)" and f: "f \<in> set fs \<and> f_name f = n"
  then have "last_field fs n \<noteq> None" by (auto simp: last_field_None_iff)
  then obtain g where g: "last_field fs n = Some g" by auto
  from last_field_SomeD [OF g] f d have "g = f"
    by (auto simp: distinct_map inj_on_def)
  with g show "last_field fs n = Some f" by simp
qed

lemma expected_Added_iff:
  "expected_entry os ns n = Added v \<longleftrightarrow>
     (\<exists>b. v = FieldObj b \<and> last_field os n = None \<and> last_field ns n = Some b)"
  by (auto simp: expected_entry_def split: option.splits)

lemma expected_Removed_iff:
  "expected_entry os ns n = Removed v \<longleftrightarrow>
     (\<exists>a. v = FieldObj a \<and> last_field os n = Some a \<and> last_field ns n = None)"
  by (auto simp: expected_entry_def split: option.splits)

lemma expected_Changed_iff:
  "expected_entry os ns n = Changed c \<longleftrightarrow>
     (\<exists>a b. c = change_of a b \<and> differ a b \<and> last_field os n = Some a \<and> last_field ns n = Some b)"
  by (auto simp: expected_entry_def split: option.splits)

lemma expected_Unchanged_iff:
  assumes "n \<in> f_name ` set os \<union> f_name ` set ns"
  shows "expected_entry os ns n = Unchanged v \<longleftrightarrow>
     (\<exists>a b. v = FieldObj b \<and> \<not> differ a b \<and> last_field os n = Some a \<and> last_field ns n = Some b)"
proof (cases "last_field os n")
  case None
  with assms have "last_field ns n \<noteq> None"
    by (simp add: last_field_None_iff)
  then obtain b where "last_field ns n = Some b" by auto
  with None show ?thesis by (simp add: expected_entry_def)
next
  case (Some a)
  show ?thesis
    by (cases "last_field ns n") (auto simp: Some expected_entry_def)
qed

text \<open>
  The classification of claim C1, for schemas with pairwise distinct names none of which
  is the name of a member of \<^verbatim>\<open>Object.prototype\<close>: \<open>added\<close> holds exactly the
  descriptors of the new schema whose name the old schema lacks, \<open>removed\<close> exactly the
  descriptors of the old schema whose name the new schema lacks, \<open>changed\<close> exactly one
  entry \<open>change_of a b\<close>, with the \<open>before\<close> of the old descriptor \<open>a\<close> and the \<open>after\<close> of
  the new descriptor \<open>b\<close>, for the names in both whose type or nullability differ, and
  \<open>unchanged\<close> the new descriptors of the remaining names.
\<close>

theorem diffSchemas_classification:
  assumes p: "plain_names old" "plain_names new"
    and dist: "distinct (field_names old)" "distinct (field_names new)"
  shows "\<exists>d. diffSchemas old new = Inr d
    \<and> set (added d) = FieldObj ` {b \<in> set (normalizeFieldsArray (schema_fields new)).
          f_name b \<notin> set (field_names old)}
    \<and> set (removed d) = FieldObj ` {a \<in> set (normalizeFieldsArray (schema_fields old)).
          f_name a \<notin> set (field_names new)}
    \<and> set (changed d) = {change_of a b | a b.
          a \<in> set (normalizeFieldsArray (schema_fields old))
          \<and> b \<in> set (normalizeFieldsArray (schema_fields new))
          \<and> f_name a = f_name b \<and> differ a b}
    \<and> set (unchanged d) = FieldObj ` {b \<in> set (normalizeFieldsArray (schema_fields new)).
          \<exists>a \<in> set (normalizeFieldsArray (schema_fields old)).
            f_name a = f_name b \<and> \<not> differ a b}"
proof -
  let ?O = "normalizeFieldsArray (schema_fields old)" and ?N = "normalizeFieldsArray (schema_fields new)"
  let ?names = "set (field_names old) \<union> set (field_names new)"
  obtain d where d: "diffSchemas old new = Inr d"
    and g: "\<And>v. v \<in> set (added d) \<longleftrightarrow> Added v \<in> set (entries old new)"
      "\<And>v. v \<in> set (removed d) \<longleftrightarrow> Removed v \<in> set (entries old new)"
      "\<And>c. c \<in> set (changed d) \<longleftrightarrow> Changed c \<in> set (entries old new)"
      "\<And>v. v \<in> set (unchanged d) \<longleftrightarrow> Unchanged v \<in> set (entries old new)"
    using diffSchemas_groups [of old new] by blast
  note e = entries_plain [OF p]
  from dist have dO: "distinct (map f_name ?O)" and dN: "distinct (map f_name ?N)"
    by (simp_all add: field_names_def)
  note lO = last_field_distinct [OF dO] and lN = last_field_distinct [OF dN]
  have nO: "last_field ?O n = None \<longleftrightarrow> n \<notin> set (field_names old)" for n
    by (simp add: last_field_None_iff field_names_def)
  have nN: "last_field ?N n = None \<longleftrightarrow> n \<notin> set (field_names new)" for n
    by (simp add: last_field_None_iff field_names_def)
  have mem: "x \<in> set ?O \<Longrightarrow> f_name x \<in> ?names" "x \<in> set ?N \<Longrightarrow> f_name x \<in> ?names" for x
    by (auto simp: field_names_def)
  have a: "set (added d) = FieldObj ` {b \<in> set ?N. f_name b \<notin> set (field_names old)}"
  proof (intro set_eqI iffI)
    fix v assume "v \<in> set (added d)"
    then obtain n b where "v = FieldObj b" "last_field ?O n = None" "last_field ?N n = Some b"
      by (auto simp: g e image_iff expected_Added_iff dest!: sym [of "Added _"])
    then show "v \<in> FieldObj ` {b \<in> set ?N. f_name b \<notin> set (field_names old)}"
      by (auto simp: lN nO)
  next
    fix v assume "v \<in> FieldObj ` {b \<in> set ?N. f_name b \<notin> set (field_names old)}"
    then obtain b where b: "v = FieldObj b" "b \<in> set ?N" "f_name b \<notin> set (field_names old)"
      by auto
    then have "expected_entry ?O ?N (f_name b) = Added v"
      by (simp add: expected_Added_iff lN nO)
    with mem(2) [OF b(2)] show "v \<in> set (added d)"
      by (auto simp: g e image_iff intro!: bexI [of _ "f_name b"])
  qed
  have r: "set (removed d) = FieldObj ` {a \<in> set ?O. f_name a \<notin> set (field_names new)}"
  proof (intro set_eqI iffI)
    fix v assume "v \<in> set (removed d)"
    then obtain n a where "v = FieldObj a" "last_field ?O n = Some a" "last_field ?N n = None"
      by (auto simp: g e image_iff expected_Removed_iff dest!: sym [of "Removed _"])
    then show "v \<in> FieldObj ` {a \<in> set ?O. f_name a \<notin> set (field_names new)}"
      by (auto simp: lO nN)
  next
    fix v assume "v \<in> FieldObj ` {a \<in> set ?O. f_name a \<notin> set (field_names new)}"
    then obtain a where a: "v = FieldObj a" "a \<in> set ?O" "f_name a \<notin> set (field_names new)"
      by auto
    then have "expected_entry ?O ?N (f_name a) = Removed v"
      by (simp add: expected_Removed_iff lO nN)
    with mem(1) [OF a(2)] show "v \<in> set (removed d)"
      by (auto simp: g e image_iff intro!: bexI [of _ "f_name a"])
  qed
  have c: "set (changed d) = {change_of a b | a b.
          a \<in> set ?O \<and> b \<in> set ?N \<and> f_name a = f_name b \<and> differ a b}"
  proof (intro set_eqI iffI)
    fix c assume "c \<in> set (changed d)"
    then obtain n a b where ab: "c = change_of a b" "differ a b"
        "last_field ?O n = Some a" "last_field ?N n = Some b"
      by (auto simp: g e image_iff expected_Changed_iff dest!: sym [of "Changed _"])
    then have "a \<in> set ?O" "b \<in> set ?N" "f_name a = f_name b"
      by (simp_all add: lO lN)
    with ab(1,2) show "c \<in> {change_of a b | a b.
          a \<in> set ?O \<and> b \<in> set ?N \<and> f_name a = f_name b \<and> differ a b}"
      by blast
  next
    fix c assume "c \<in> {change_of a b | a b.
          a \<in> set ?O \<and> b \<in> set ?N \<and> f_name a = f_name b \<and> differ a b}"
    then obtain a b where ab: "c = change_of a b" "a \<in> set ?O" "b \<in> set ?N"
        "f_name a = f_name b" "differ a b"
      by auto
    then have "expected_entry ?O ?N (f_name a) = Changed c"
      by (auto simp: expected_Changed_iff lO lN)
    with mem(1) [OF ab(2)] show "c \<in> set (changed d)"
      by (auto simp: g e image_iff intro!: bexI [of _ "f_name a"])
  qed
  have u: "set (unchanged d) = FieldObj ` {b \<in> set ?N.
          \<exists>a \<in> set ?O. f_name a = f_name b \<and> \<not> differ a b}"
  proof (intro set_eqI iffI)
    fix v assume "v \<in> set (unchanged d)"
    then obtain n where n: "n \<in> ?names" "expected_entry ?O ?N n = Unchanged v"
      by (auto simp: g e image_iff dest!: sym [of "Unchanged _"])
    from n(1) have "n \<in> f_name ` set ?O \<union> f_name ` set ?N" by (simp add: field_names_def)
    from n(2) [unfolded expected_Unchanged_iff [OF this]]
    obtain a b where "v = FieldObj b" "\<not> differ a b"
        "last_field ?O n = Some a" "last_field ?N n = Some b" by auto
    then have "v = FieldObj b" "b \<in> set ?N" "a \<in> set ?O" "f_name a = f_name b" "\<not> differ a b"
      by (simp_all add: lO lN)
    then show "v \<in> FieldObj ` {b \<in> set ?N. \<exists>a \<in> set ?O. f_name a = f_name b \<and> \<not> differ a b}"
      by blast
  next
    fix v assume "v \<in> FieldObj ` {b \<in> set ?N. \<exists>a \<in> set ?O. f_name a = f_name b \<and> \<not> differ a b}"
    then obtain a b where ab: "v = FieldObj b" "b \<in> set ?N" "a \<in> set ?O"
        "f_name a = f_name b" "\<not> differ a b"
      by auto
    from mem(2) [OF ab(2)] have "f_name b \<in> f_name ` set ?O \<union> f_name ` set ?N"
      by (simp add: field_names_def)
    from expected_Unchanged_iff [OF this, of v] ab
    have "expected_entry ?O ?N (f_name b) = Unchanged v"
      by (auto simp: lO lN)
    with mem(2) [OF ab(2)] show "v \<in> set (unchanged d)"
      by (auto simp: g e image_iff intro!: bexI [of _ "f_name b"])
  qed
  from d a r c u show ?thesis by blast
qed


text \<open>
  The first half of claim C2 holds for all schemas: no name is both in \<open>added\<close> and in
  \<open>removed\<close>. Every entry of the two groups is a descriptor object.
\<close>

theorem diffSchemas_added_removed_disjoint:
  assumes d: "diffSchemas old new = Inr d"
    and a: "v \<in> set (added d)" and r: "w \<in> set (removed d)"
  shows "\<exists>f g. v = FieldObj f \<and> w = FieldObj g \<and> f_name f \<noteq> f_name g"
proof -
  let ?om = "buildFieldMap (schema_fields old)" and ?nm = "buildFieldMap (schema_fields new)"
  obtain d' where d': "diffSchemas old new = Inr d'"
    and g:
      "\<And>v. v \<in> set (added d') \<longleftrightarrow> Added v \<in> set (entries old new)"
      "\<And>v. v \<in> set (removed d') \<longleftrightarrow> Removed v \<in> set (entries old new)"
      "\<And>c. c \<in> set (changed d') \<longleftrightarrow> Changed c \<in> set (entries old new)"
      "\<And>v. v \<in> set (unchanged d') \<longleftrightarrow> Unchanged v \<in> set (entries old new)"
    using diffSchemas_groups [of old new] by blast
  from d d' have "d' = d" by simp
  with a r g have "Added v \<in> set (entries old new)" "Removed w \<in> set (entries old new)"
    by simp_all
  then obtain x y where x: "x \<in> set (allNames ?om ?nm)" "the_entry ?om ?nm x = Added v"
    and y: "y \<in> set (allNames ?om ?nm)" "the_entry ?om ?nm y = Removed w"
    by (auto simp: entries_iff)
  from entry_Added [OF x] obtain f where f: "v = FieldObj f"
    "last_field (normalizeFieldsArray (schema_fields new)) x = Some f"
    "last_field (normalizeFieldsArray (schema_fields old)) x = None" by auto
  from entry_Removed [OF y] obtain g where g: "w = FieldObj g"
    "last_field (normalizeFieldsArray (schema_fields old)) y = Some g"
    "last_field (normalizeFieldsArray (schema_fields new)) y = None" by auto
  from f(3) g(2) have "x \<noteq> y" by auto
  with last_field_SomeD [OF f(2)] last_field_SomeD [OF g(2)] f(1) g(1) show ?thesis by auto
qed

text \<open>
  The second half of claim C2, for schemas without names of members of
  \<^verbatim>\<open>Object.prototype\<close>: every name in \<open>changed\<close> is the name of a field of both schemas.
\<close>

theorem diffSchemas_changed_in_both:
  assumes p: "plain_names old" "plain_names new"
    and d: "diffSchemas old new = Inr d" and c: "c \<in> set (changed d)"
  shows "c_name c \<in> set (field_names old) \<and> c_name c \<in> set (field_names new)"
proof -
  let ?O = "normalizeFieldsArray (schema_fields old)" and ?N = "normalizeFieldsArray (schema_fields new)"
  obtain d' where d': "diffSchemas old new = Inr d'"
    and g:
      "\<And>v. v \<in> set (added d') \<longleftrightarrow> Added v \<in> set (entries old new)"
      "\<And>v. v \<in> set (removed d') \<longleftrightarrow> Removed v \<in> set (entries old new)"
      "\<And>c. c \<in> set (changed d') \<longleftrightarrow> Changed c \<in> set (entries old new)"
      "\<And>v. v \<in> set (unchanged d') \<longleftrightarrow> Unchanged v \<in> set (entries old new)"
    using diffSchemas_groups [of old new] by blast
  from d d' have "d' = d" by simp
  with c g have "Changed c \<in> set (entries old new)" by simp
  then obtain n a b where ab: "c = change_of a b" "last_field ?O n = Some a" "last_field ?N n = Some b"
    by (auto simp: entries_plain [OF p] image_iff expected_Changed_iff dest!: sym [of "Changed _"])
  from last_field_SomeD [OF ab(2)] last_field_SomeD [OF ab(3)]
  have "a \<in> set ?O" "b \<in> set ?N" "f_name a = n" "f_name b = n" by simp_all
  then have "f_name a \<in> f_name ` set ?O" "f_name a \<in> f_name ` set ?N"
    by (auto simp: image_iff intro: bexI [of _ b])
  with ab(1) show ?thesis
    by (simp add: change_of_def field_names_def)
qed

lemma occurrences_entries:
  "occurrences n
     \<lparr>added = concat (map added_of es), removed = concat (map removed_of es),
      changed = concat (map changed_of es), unchanged = concat (map unchanged_of es)\<rparr>
   = sum_list (map (entry_occurs n) es)"
proof (induction es)
  case Nil
  show ?case by (simp add: occurrences_def)
next
  case (Cons e es)
  then show ?case by (cases e) (simp_all add: occurrences_def)
qed

lemma entry_occurs_expected:
  assumes "x \<in> f_name ` set os \<union> f_name ` set ns"
  shows "entry_occurs n (expected_entry os ns x) = (if x = n then 1 else 0)"
proof (cases "last_field os x")
  case None
  with assms have "last_field ns x \<noteq> None" by (simp add: last_field_None_iff)
  then obtain b where b: "last_field ns x = Some b" by auto
  with None last_field_SomeD [OF b] show ?thesis by (simp add: expected_entry_def)
next
  case (Some a)
  note a = last_field_SomeD [OF Some]
  show ?thesis
  proof (cases "last_field ns x")
    case None
    with Some a show ?thesis by (simp add: expected_entry_def)
  next
    case (Some b)
    with \<open>last_field os x = Some a\<close> a last_field_SomeD [OF Some] show ?thesis
      by (simp add: expected_entry_def change_of_def)
  qed
qed

lemma sum_list_indicator:
  "distinct xs \<Longrightarrow> sum_list (map (\<lambda>x. if x = n then 1 else 0) xs) = (if n \<in> set xs then 1 else (0::nat))"
  by (induction xs) auto

theorem diffSchemas_one_entry_per_name:
  assumes p: "plain_names old" "plain_names new"
  shows "\<exists>d. diffSchemas old new = Inr d
           \<and> (\<forall>n. occurrences n d =
                 (if n \<in> set (field_names old) \<union> set (field_names new) then 1 else 0))"
proof -
  let ?om = "buildFieldMap (schema_fields old)" and ?nm = "buildFieldMap (schema_fields new)"
  let ?O = "normalizeFieldsArray (schema_fields old)" and ?N = "normalizeFieldsArray (schema_fields new)"
  have e: "entries old new = map (expected_entry ?O ?N) (allNames ?om ?nm)"
    by (simp add: entries_def Let_def the_entry_plain [OF p] set_allNames_schemas [OF p])
  have "sum_list (map (entry_occurs n) (entries old new))
          = (if n \<in> set (field_names old) \<union> set (field_names new) then 1 else 0)" for n
  proof -
    have "map (entry_occurs n) (entries old new)
            = map (\<lambda>x. if x = n then 1 else 0) (allNames ?om ?nm)"
      unfolding e map_map
      by (rule map_cong)
         (simp_all add: entry_occurs_expected set_allNames_schemas [OF p] field_names_def)
    then show ?thesis
      by (simp add: sum_list_indicator [OF distinct_allNames] set_allNames_schemas [OF p])
  qed
  then show ?thesis
    by (simp add: diffSchemas_entries occurrences_entries)
qed

text \<open>
  Claim C9. Only an explicit \<^verbatim>\<open>nullable: false\<close> yields a field that is not nullable.
\<close>

theorem normalizeField_nullable:
  "f_nullable (normalizeField f) \<longleftrightarrow> r_nullable f \<noteq> Some False"
  by (simp add: normalizeField_def)

text \<open>
  For a path other than \<^verbatim>\<open>__proto__\<close> with a descriptor in both schemas, the diff reports
  a change of nullability exactly when the two normalized flags differ, that is when
  exactly one of the descriptors has \<^verbatim>\<open>nullable: false\<close>.
\<close>

theorem diffSchemas_reports_nullable:
  assumes n: "n \<noteq> ''__proto__''"
    and a: "last_field (normalizeFieldsArray (schema_fields old)) n = Some a"
    and b: "last_field (normalizeFieldsArray (schema_fields new)) n = Some b"
  shows "\<exists>d. diffSchemas old new = Inr d
           \<and> ((\<exists>c \<in> set (changed d). c_name c = n \<and> ''nullable'' \<in> set (diffs c))
                \<longleftrightarrow> f_nullable a \<noteq> f_nullable b)"
proof -
  let ?om = "buildFieldMap (schema_fields old)" and ?nm = "buildFieldMap (schema_fields new)"
  obtain d where d: "diffSchemas old new = Inr d"
    and g:
      "\<And>v. v \<in> set (added d) \<longleftrightarrow> Added v \<in> set (entries old new)"
      "\<And>v. v \<in> set (removed d) \<longleftrightarrow> Removed v \<in> set (entries old new)"
      "\<And>c. c \<in> set (changed d) \<longleftrightarrow> Changed c \<in> set (entries old new)"
      "\<And>v. v \<in> set (unchanged d) \<longleftrightarrow> Unchanged v \<in> set (entries old new)"
    using diffSchemas_groups [of old new] by blast
  from n a have m: "n \<in> set (allNames ?om ?nm)"
    by (auto simp: set_allNames dest: last_field_SomeD)
  note e = entry_both [OF n a b]
  have "(\<exists>c \<in> set (changed d). c_name c = n \<and> ''nullable'' \<in> set (diffs c))
          \<longleftrightarrow> f_nullable a \<noteq> f_nullable b"
  proof
    assume "\<exists>c \<in> set (changed d). c_name c = n \<and> ''nullable'' \<in> set (diffs c)"
    then obtain c where c: "Changed c \<in> set (entries old new)" "c_name c = n"
        "''nullable'' \<in> set (diffs c)"
      by (auto simp: g)
    then obtain x where x: "x \<in> set (allNames ?om ?nm)" "the_entry ?om ?nm x = Changed c"
      by (auto simp: entries_iff)
    from entry_Changed [OF x] c(2) have "x = n" by simp
    with x(2) e c(3) show "f_nullable a \<noteq> f_nullable b"
      by (auto simp: change_of_def split: if_splits)
  next
    assume "f_nullable a \<noteq> f_nullable b"
    with e have "the_entry ?om ?nm n = Changed ((change_of a b)\<lparr>c_name := n\<rparr>)"
      by (simp add: differ_def)
    with m have "Changed ((change_of a b)\<lparr>c_name := n\<rparr>) \<in> set (entries old new)"
      by (force simp: entries_iff)
    with \<open>f_nullable a \<noteq> f_nullable b\<close>
    show "\<exists>c \<in> set (changed d). c_name c = n \<and> ''nullable'' \<in> set (diffs c)"
      by (auto simp: g change_of_def intro!: bexI [of _ "(change_of a b)\<lparr>c_name := n\<rparr>"])
  qed
  with d show ?thesis by blast
qed


section \<open>computeStability\<close>

lemma rne_upper: "of_int (rne y) \<le> y + 1 / 2"
proof -
  define f where "f = \<lfloor>y\<rfloor>"
  define r where "r = y - of_int f"
  have y: "y = of_int f + r" by (simp add: r_def)
  have "rne y = (if r < 1 / 2 then f else if 1 / 2 < r then f + 1
          else if even f then f else f + 1)"
    by (simp only: rne_def Let_def f_def r_def)
  moreover have "0 \<le> r" by (simp add: r_def f_def)
  ultimately show ?thesis unfolding y
    by (simp split: if_splits)
qed

lemma rne_nonneg: "0 \<le> y \<Longrightarrow> 0 \<le> rne y"
  by (auto simp: rne_def Let_def)

lemma ilog2_lower:
  assumes "0 < x"
  shows "2 powi ilog2 x \<le> x"
proof -
  obtain a b where q: "quotient_of x = (a, b)" by (cases "quotient_of x")
  from quotient_of_denom_pos [OF q] have b: "0 < b" .
  from quotient_of_div [OF q] have x: "x = of_int a / of_int b" .
  with assms b have a: "0 < a" by (simp add: zero_less_divide_iff)
  let ?k = "bitlen a - bitlen b"
  show ?thesis
  proof (cases "2 powi ?k \<le> x")
    case True
    with q show ?thesis by (simp add: ilog2_def)
  next
    case False
    from bitlen_bounds [OF a] have la: "2 ^ nat (bitlen a - 1) \<le> a" by simp
    from bitlen_bounds [OF b] have lb: "b < 2 ^ nat (bitlen b)" by simp
    from a have pa: "1 \<le> bitlen a" by (auto simp: bitlen_alt_def)
    from b have pb: "1 \<le> bitlen b" by (auto simp: bitlen_alt_def)
    have "?k - 1 = (bitlen a - 1) - bitlen b" by simp
    then have "(2::rat) powi (?k - 1) = 2 powi (bitlen a - 1) / 2 powi bitlen b"
      by (simp only: power_int_diff [of "2::rat", simplified])
    also have "\<dots> = 2 ^ nat (bitlen a - 1) / 2 ^ nat (bitlen b)"
      using pa pb by (simp add: power_int_def)
    also have "\<dots> \<le> of_int a / of_int b"
    proof -
      have "(2::rat) ^ nat (bitlen a - 1) \<le> of_int a"
        using la by (metis of_int_le_iff of_int_numeral of_int_power)
      moreover have "(of_int b :: rat) \<le> 2 ^ nat (bitlen b)"
        using lb by (metis less_imp_le of_int_le_iff of_int_numeral of_int_power)
      moreover from b have "0 < (of_int b :: rat)" by simp
      moreover from a have "0 \<le> (of_int a :: rat)" by simp
      ultimately show ?thesis
        by (intro frac_le)
    qed
    finally have "2 powi (?k - 1) \<le> x" by (simp add: x)
    with False q show ?thesis by (simp add: ilog2_def)
  qed
qed

lemma fl_nonneg: "0 \<le> x \<Longrightarrow> 0 \<le> fl x"
  by (auto simp: fl_def Let_def sgn_if intro!: mult_nonneg_nonneg rne_nonneg divide_nonneg_nonneg)

text \<open>The rounding error of \<open>fl\<close>: at most the relative error \<open>2\<^sup>-\<^sup>5\<^sup>2\<close> plus \<open>2\<^sup>-\<^sup>5\<^sup>2\<close>.\<close>

lemma fl_upper:
  assumes "0 \<le> x"
  shows "fl x \<le> x * (1 + 1 / 2 ^ 52) + 1 / 2 ^ 52"
proof (cases "x = 0")
  case True
  then show ?thesis by (simp add: fl_def)
next
  case False
  with assms have x: "0 < x" by simp
  define e where "e = max (ilog2 x - 52) (- 1074)"
  have p: "(0::rat) < 2 powi e" by simp
  from x have f: "fl x = of_int (rne (x / 2 powi e)) * 2 powi e"
    by (simp add: fl_def Let_def e_def)
  have "of_int (rne (x / 2 powi e)) * 2 powi e \<le> (x / 2 powi e + 1 / 2) * 2 powi e"
    using rne_upper [of "x / 2 powi e"] p by (simp only: mult_le_cancel_right_pos)
  also have "\<dots> = x + 2 powi e / 2"
    using p by (simp add: field_simps)
  finally have 1: "fl x \<le> x + 2 powi e / 2" by (simp add: f)
  have "(2::rat) powi e \<le> x / 2 ^ 52 + 1 / 2 ^ 52"
  proof (cases "- 1074 \<le> ilog2 x - 52")
    case True
    then have "e = ilog2 x - 52" by (simp add: e_def)
    then have "(2::rat) powi e = 2 powi ilog2 x / 2 ^ 52"
      by (simp add: power_int_diff)
    also have "\<dots> \<le> x / 2 ^ 52"
      using ilog2_lower [OF x] by (simp add: divide_right_mono)
    finally show ?thesis by simp
  next
    case False
    then have "e = - 1074" by (simp add: e_def)
    then have "(2::rat) powi e = 1 / 2 ^ 1074" by (simp add: power_int_minus_divide)
    also have "\<dots> \<le> 1 / 2 ^ 52"
      by (intro divide_left_mono power_increasing) simp_all
    finally show ?thesis using x by (simp add: add_increasing)
  qed
  then have "2 powi e / 2 \<le> (x / 2 ^ 52 + 1 / 2 ^ 52) / 2"
    by (rule divide_right_mono) simp
  then have "x + 2 powi e / 2 \<le> x + (x / 2 ^ 52 + 1 / 2 ^ 52) / 2"
    by (rule add_left_mono)
  with 1 have "fl x \<le> x + (x / 2 ^ 52 + 1 / 2 ^ 52) / 2"
    by (rule order_trans)
  also have "\<dots> \<le> x * (1 + 1 / 2 ^ 52) + 1 / 2 ^ 52"
    using x by (simp add: field_simps)
  finally show ?thesis .
qed

lemma fl_one: "fl 1 = 1"
  by code_simp

lemma fl_hundred: "fl 100 = 100"
  by code_simp

lemma math_round_hundred: "math_round 100 = 100"
  by code_simp

lemma score_all: "0 < t \<Longrightarrow> score t t = 100"
  by (simp add: score_def fl_one fl_hundred math_round_hundred)

lemma score_nonneg: "0 \<le> score s t"
proof -
  have "0 \<le> fl (fl (of_nat s / of_nat t) * 100)"
    by (intro fl_nonneg mult_nonneg_nonneg) simp_all
  then show ?thesis by (simp add: score_def math_round_def)
qed

lemma score_bound:
  assumes "s \<le> t" and "(q::rat) \<le> 1" and "0 < t" and "of_nat s \<le> q * of_nat t"
  shows "fl (fl (of_nat s / of_nat t) * 100) \<le> (100 * (q * (1 + 1 / 2 ^ 52) + 1 / 2 ^ 52)) * (1 + 1 / 2 ^ 52) + 1 / 2 ^ 52"
proof -
  let ?d = "(1::rat) / 2 ^ 52"
  have x: "(0::rat) \<le> of_nat s / of_nat t" by simp
  from assms(3,4) have xq: "(of_nat s :: rat) / of_nat t \<le> q"
    by (simp add: pos_divide_le_eq)
  have "fl (of_nat s / of_nat t) \<le> (of_nat s / of_nat t) * (1 + ?d) + ?d"
    by (rule fl_upper [OF x])
  also have "\<dots> \<le> q * (1 + ?d) + ?d"
    using xq by (simp add: mult_right_mono)
  finally have 1: "fl (of_nat s / of_nat t) * 100 \<le> 100 * (q * (1 + ?d) + ?d)" by simp
  have 0: "0 \<le> fl (of_nat s / of_nat t) * 100"
    by (intro mult_nonneg_nonneg fl_nonneg) simp_all
  have "fl (fl (of_nat s / of_nat t) * 100) \<le> (fl (of_nat s / of_nat t) * 100) * (1 + ?d) + ?d"
    by (rule fl_upper [OF 0])
  also have "\<dots> \<le> (100 * (q * (1 + ?d) + ?d)) * (1 + ?d) + ?d"
    using 1 by (simp add: mult_right_mono)
  finally show ?thesis .
qed

lemma score_le_100: "s \<le> t \<Longrightarrow> 0 < t \<Longrightarrow> score s t \<le> 100"
proof -
  assume a: "s \<le> t" "0 < t"
  then have "(of_nat s :: rat) \<le> 1 * of_nat t" by simp
  from score_bound [OF a(1) _ a(2) this]
  have "fl (fl (of_nat s / of_nat t) * 100) \<le> (100 * (1 * (1 + 1 / 2 ^ 52) + 1 / 2 ^ 52)) * (1 + 1 / 2 ^ 52) + 1 / 2 ^ 52"
    by simp
  also have "\<dots> < 100 + 1 / 2" by simp
  finally have "fl (fl (of_nat s / of_nat t) * 100) + 1 / 2 < 101" by simp
  then have "\<lfloor>fl (fl (of_nat s / of_nat t) * 100) + 1 / 2\<rfloor> < 101"
    by (simp add: floor_less_iff)
  then show ?thesis by (simp add: score_def math_round_def)
qed

lemma score_lt_100:
  assumes "s < t" "t < 200"
  shows "score s t < 100"
proof -
  from assms have a: "s \<le> t" "0 < t" by simp_all
  from assms have "199 * s \<le> 198 * t" by simp
  then have "(199 * of_nat s :: rat) \<le> 198 * of_nat t"
    by (metis of_nat_le_iff of_nat_mult of_nat_numeral)
  then have "(of_nat s :: rat) \<le> (198 / 199) * of_nat t" by simp
  from score_bound [OF a(1) _ a(2) this]
  have "fl (fl (of_nat s / of_nat t) * 100) \<le> (100 * ((198 / 199) * (1 + 1 / 2 ^ 52) + 1 / 2 ^ 52)) * (1 + 1 / 2 ^ 52) + 1 / 2 ^ 52"
    by simp
  also have "\<dots> < 99 + 1 / 2" by simp
  finally have "fl (fl (of_nat s / of_nat t) * 100) + 1 / 2 < 100" by simp
  then have "\<lfloor>fl (fl (of_nat s / of_nat t) * 100) + 1 / 2\<rfloor> < 100"
    by (simp add: floor_less_iff)
  then show ?thesis by (simp add: score_def math_round_def)
qed

lemma diffSchemas_the_diff: "diffSchemas old new = Inr (the_diff old new)"
  by (simp add: the_diff_def diffSchemas_entries)

lemma stability_loop_eq:
  "stability_loop h (t, s) =
     Inr (t + length (adjacent h), s + length (filter stable_pair (adjacent h)))"
proof (induction h arbitrary: t s rule: induct_list012)
  case 1
  show ?case by (simp add: adjacent_def)
next
  case (2 x)
  show ?case by (simp add: adjacent_def)
next
  case (3 x y zs)
  have "adjacent (x # y # zs) = (x, y) # adjacent (y # zs)"
    by (simp add: adjacent_def)
  then show ?case
    by (simp add: diffSchemas_the_diff "3.IH"(2) stable_pair_def)
qed

lemma length_adjacent: "length (adjacent h) = length h - 1"
  by (simp add: adjacent_def)

lemma computeStability_score:
  "2 \<le> length h \<Longrightarrow>
   computeStability h =
     Inr (score (length (filter stable_pair (adjacent h))) (length (adjacent h)))"
  by (simp add: computeStability_def stability_loop_eq score_def)

text \<open>
  The parts of claim C8 that hold for every history: the score is an integer from 0 to
  100, it is 100 for a history of fewer than two versions, and it is 100 when no adjacent
  pair of versions has an added, removed or changed field.
\<close>

theorem computeStability_range:
  "\<exists>n. computeStability h = Inr n \<and> 0 \<le> n \<and> n \<le> 100"
proof (cases "length h < 2")
  case True
  then show ?thesis by (simp add: computeStability_def)
next
  case False
  then have l: "2 \<le> length h" by simp
  then have "0 < length (adjacent h)" by (simp add: length_adjacent)
  moreover have "length (filter stable_pair (adjacent h)) \<le> length (adjacent h)"
    by (rule length_filter_le)
  ultimately show ?thesis
    by (simp add: computeStability_score [OF l] score_nonneg score_le_100)
qed

theorem computeStability_short: "length h < 2 \<Longrightarrow> computeStability h = Inr 100"
  by (simp add: computeStability_def)

theorem computeStability_all_stable:
  assumes "list_all stable_pair (adjacent h)"
  shows "computeStability h = Inr 100"
proof (cases "length h < 2")
  case True
  then show ?thesis by (simp add: computeStability_def)
next
  case False
  then have l: "2 \<le> length h" by simp
  then have "0 < length (adjacent h)" by (simp add: length_adjacent)
  moreover from assms have "filter stable_pair (adjacent h) = adjacent h"
    by (simp add: list_all_iff)
  ultimately show ?thesis
    by (simp add: computeStability_score [OF l] score_all)
qed

text \<open>
  The converse holds for histories of at most 200 versions: there the score 100 means
  that no adjacent pair of versions has a change.
\<close>

theorem computeStability_100_iff:
  assumes l: "2 \<le> length h" "length h \<le> 200"
  shows "computeStability h = Inr 100 \<longleftrightarrow> list_all stable_pair (adjacent h)"
proof
  assume "list_all stable_pair (adjacent h)"
  then show "computeStability h = Inr 100" by (rule computeStability_all_stable)
next
  assume c: "computeStability h = Inr 100"
  show "list_all stable_pair (adjacent h)"
  proof (rule ccontr)
    assume "\<not> list_all stable_pair (adjacent h)"
    then obtain p where "p \<in> set (adjacent h)" "\<not> stable_pair p"
      by (auto simp: list_all_iff)
    then have "length (filter stable_pair (adjacent h)) < length (adjacent h)"
      by (rule length_filter_less)
    moreover from l have "length (adjacent h) < 200" by (simp add: length_adjacent)
    ultimately have "score (length (filter stable_pair (adjacent h))) (length (adjacent h)) < 100"
      by (rule score_lt_100)
    with c show False by (simp add: computeStability_score [OF l(1)])
  qed
qed

lemma adjacent_replicate:
  "adjacent (replicate (Suc n) a @ [b]) = replicate n (a, a) @ [(a, b)]"
  by (induction n) (simp_all add: adjacent_def)

lemma score_999: "score 999 1000 = 100"
proof -
  have "math_round (fl (fl (999 / 1000) * 100)) = 100" by code_simp
  then show ?thesis by (simp add: score_def)
qed

text \<open>
  C8 (the code at the failing input). A history of 1001 versions: the first 1000 are the
  same schema, the last one has a new field. 999 of the 1000 adjacent pairs are stable,
  \<^verbatim>\<open>Math.round(99.9)\<close> is 100: the score is 100 although the last diff has an added
  field.
\<close>

theorem computeStability_rounds_to_100:
  "computeStability
     (replicate 1000 \<lparr>schema_fields = Some [plain_field ''id'' ''string'']\<rparr>
      @ [\<lparr>schema_fields = Some [plain_field ''id'' ''string'',
                                  plain_field ''price'' ''decimal'']\<rparr>]) = Inr 100
   \<and> diffSchemas \<lparr>schema_fields = Some [plain_field ''id'' ''string'']\<rparr>
        \<lparr>schema_fields = Some [plain_field ''id'' ''string'',
                                plain_field ''price'' ''decimal'']\<rparr> =
      Inr \<lparr>added = [FieldObj \<lparr>f_name = ''price'', f_type = ''decimal'', f_nullable = True,
                               f_new = False\<rparr>],
           removed = [], changed = [],
           unchanged = [FieldObj \<lparr>f_name = ''id'', f_type = ''string'', f_nullable = True,
                                   f_new = False\<rparr>]\<rparr>"
proof -
  let ?a = "\<lparr>schema_fields = Some [plain_field ''id'' ''string'']\<rparr>"
  let ?b = "\<lparr>schema_fields = Some [plain_field ''id'' ''string'',
                                    plain_field ''price'' ''decimal'']\<rparr>"
  let ?h = "replicate 1000 ?a @ [?b]"
  have ab: "diffSchemas ?a ?b =
      Inr \<lparr>added = [FieldObj \<lparr>f_name = ''price'', f_type = ''decimal'', f_nullable = True,
                               f_new = False\<rparr>],
           removed = [], changed = [],
           unchanged = [FieldObj \<lparr>f_name = ''id'', f_type = ''string'', f_nullable = True,
                                   f_new = False\<rparr>]\<rparr>"
    by (simp add: eval_defs)
  have aa: "diffSchemas ?a ?a =
      Inr \<lparr>added = [], removed = [], changed = [],
           unchanged = [FieldObj \<lparr>f_name = ''id'', f_type = ''string'', f_nullable = True,
                                   f_new = False\<rparr>]\<rparr>"
    by (simp add: eval_defs)
  from aa have sa: "stable_pair (?a, ?a)"
    by (simp add: stable_pair_def diffSchemas_the_diff is_stable_def)
  from ab have sb: "\<not> stable_pair (?a, ?b)"
    by (simp add: stable_pair_def diffSchemas_the_diff is_stable_def)
  have "?h = replicate (Suc 999) ?a @ [?b]" by simp
  then have adj: "adjacent ?h = replicate 999 (?a, ?a) @ [(?a, ?b)]"
    by (simp only: adjacent_replicate)
  have "length (filter stable_pair (adjacent ?h)) = 999" "length (adjacent ?h) = 1000"
    unfolding adj using sa sb by simp_all
  moreover have "2 \<le> length ?h" by simp
  ultimately have "computeStability ?h = Inr 100"
    by (simp only: computeStability_score score_999)
  with ab show ?thesis by simp
qed


lemma timeline_of_absent:
  "timeline_of fieldName s = Inr t \<Longrightarrow> \<not> present t \<Longrightarrow> t_type t = None \<and> t_nullable t = None"
  by (cases "get_prop (buildFieldMap (Some (projr (timeline_fields (v_schema s))))) fieldName")
     (auto simp: timeline_of_def Let_def split: sum.splits)

text \<open>
  The parts of claim C10 that hold for every field name: when the time line is returned,
  it has one entry per version, and an entry that is not present has neither a type nor
  a nullability.
\<close>

theorem fieldTimeline_length:
  "fieldTimeline fieldName history = Inr ts \<Longrightarrow>
   length ts = length history
   \<and> list_all (\<lambda>t. if present t then True else t_type t = None \<and> t_nullable t = None) ts"
proof (induction history arbitrary: ts)
  case Nil
  then show ?case by simp
next
  case (Cons s history)
  from Cons.prems obtain t ts' where t: "timeline_of fieldName s = Inr t"
    and ts': "fieldTimeline fieldName history = Inr ts'" and ts: "ts = t # ts'"
    by (auto split: sum.splits)
  from Cons.IH [OF ts'] timeline_of_absent [OF t] ts show ?case by simp
qed

lemma timeline_of_plain:
  assumes k: "fieldName \<notin> set object_prototype_keys" and p: "plain_version s"
  shows "\<exists>t. timeline_of fieldName s = Inr t \<and> timeline_entry_ok fieldName s t"
proof -
  from p obtain fs where fs: "timeline_fields (v_schema s) = Inr fs"
    by (auto simp: plain_version_def has_field_list_def split: sum.splits)
  with p have np: "''__proto__'' \<notin> f_name ` set (normalizeFieldsArray (Some fs))"
    by (simp add: plain_version_def version_names_def)
  note g = get_prop_plain [OF np k]
  show ?thesis
  proof (cases "last_field (normalizeFieldsArray (Some fs)) fieldName")
    case None
    then have "fieldName \<notin> set (version_names s)"
      by (simp add: last_field_None_iff version_names_def fs)
    with None show ?thesis
      by (simp add: timeline_of_def fs g timeline_entry_ok_def)
  next
    case (Some f)
    from last_field_SomeD [OF Some] have "fieldName \<in> set (version_names s)"
      by (auto simp: version_names_def fs)
    with Some show ?thesis
      by (simp add: timeline_of_def fs g timeline_entry_ok_def)
  qed
qed

text \<open>
  Claim C10, for a field name that is not the name of a member of \<^verbatim>\<open>Object.prototype\<close>
  and a history whose versions have a field list without a field named \<^verbatim>\<open>__proto__\<close>:
  the time line has one entry per version, in the order of the history; an entry is
  present exactly when the version has a field of that name, and an entry that is not
  present has neither a type nor a nullability.
\<close>

theorem fieldTimeline_entries:
  assumes "fieldName \<notin> set object_prototype_keys" and "list_all plain_version history"
  shows "\<exists>ts. fieldTimeline fieldName history = Inr ts
           \<and> list_all2 (timeline_entry_ok fieldName) history ts"
  using assms(2)
proof (induction history)
  case Nil
  show ?case by simp
next
  case (Cons s history)
  then obtain ts where ts: "fieldTimeline fieldName history = Inr ts"
    "list_all2 (timeline_entry_ok fieldName) history ts" by auto
  from Cons.prems timeline_of_plain [OF assms(1), of s]
  obtain t where "timeline_of fieldName s = Inr t" "timeline_entry_ok fieldName s t"
    by auto
  with ts show ?case by simp
qed


lemma first_match_bounds:
  "first_match xs buf pos = Some (k, n) \<Longrightarrow> 0 < n \<and> pos + n \<le> length buf"
  by (induction xs buf pos rule: first_match.induct) (auto split: option.splits if_splits)

lemma tiles_le: "tiles a b sps \<Longrightarrow> a \<le> b"
  by (induction a b sps rule: tiles.induct) auto

lemma tiles_flush:
  "r < pos \<Longrightarrow> tiles pos b sps \<Longrightarrow> tiles r b (map rawSpan (flush (Some r) pos) @ sps)"
  by simp

lemma scan_tiles:
  "pos \<le> length buf \<Longrightarrow> (case residue of None \<Rightarrow> True | Some r \<Rightarrow> r < pos) \<Longrightarrow>
   tiles (case residue of None \<Rightarrow> pos | Some r \<Rightarrow> r) (length buf)
     (map rawSpan (scan ds buf pos residue))"
proof (induction ds buf pos residue rule: scan.induct)
  case (1 ds buf pos residue)
  show ?case
  proof (cases "length buf \<le> pos")
    case True
    with "1.prems" show ?thesis
      by (cases residue) (simp_all add: scan.simps)
  next
    case False
    show ?thesis
    proof (cases "first_match (priority ds) buf pos")
      case None
      from False have "pos + 1 \<le> length buf" by simp
      moreover from "1.prems"(2)
      have "case Some (case residue of None \<Rightarrow> pos | Some r \<Rightarrow> r) of None \<Rightarrow> True
            | Some r \<Rightarrow> r < pos + 1"
        by (cases residue) simp_all
      ultimately have "tiles (case residue of None \<Rightarrow> pos | Some r \<Rightarrow> r) (length buf)
          (map rawSpan (scan ds buf (pos + 1) (Some (case residue of None \<Rightarrow> pos | Some r \<Rightarrow> r))))"
        using "1.IH"(1) [OF False None] by simp
      with False None show ?thesis by (simp add: scan.simps [of ds buf pos])
    next
      case (Some m)
      obtain k n where m: "m = (k, n)" by (cases m)
      from first_match_bounds Some m have n: "0 < n" "pos + n \<le> length buf" by blast+
      have "tiles (pos + n) (length buf) (map rawSpan (scan ds buf (pos + n) None))"
        using "1.IH"(2) [OF False Some m [symmetric]] n by simp
      with n have t: "tiles pos (length buf)
          (map rawSpan (\<lparr>frag_kind = k, rawSpan = (pos, pos + n)\<rparr> # scan ds buf (pos + n) None))"
        by simp
      show ?thesis
      proof (cases residue)
        case None
        with False Some m t show ?thesis by (simp add: scan.simps [of ds buf pos])
      next
        case (Some r)
        with "1.prems"(2) have "r < pos" by simp
        with False \<open>first_match (priority ds) buf pos = Some m\<close> m t Some show ?thesis
          by (simp add: scan.simps [of ds buf pos])
      qed
    qed
  qed
qed

lemma tiles_text:
  "tiles a b sps \<Longrightarrow> b \<le> length buf \<Longrightarrow>
   concat (map (span_text buf) sps) = take (b - a) (drop a buf)"
proof (induction a b sps rule: tiles.induct)
  case (1 a b)
  then show ?case by simp
next
  case (2 a b s e sps)
  from "2.prems" have s: "s = a" "a < e" and t: "tiles e b sps" by simp_all
  from t have "e \<le> b" by (rule tiles_le)
  from "2.IH" [OF t "2.prems"(2)]
  have "concat (map (span_text buf) sps) = take (b - e) (drop e buf)" .
  moreover have "take (b - a) (drop a buf) = take (e - a) (drop a buf) @ take (b - e) (drop e buf)"
  proof -
    from s \<open>e \<le> b\<close> have "b - a = (e - a) + (b - e)" by simp
    then have "take (b - a) (drop a buf)
        = take (e - a) (drop a buf) @ take (b - e) (drop (e - a) (drop a buf))"
      by (simp only: take_add)
    with s show ?thesis by simp
  qed
  moreover from s have "span_text buf (s, e) = take (e - a) (drop a buf)"
    by (simp add: span_text_def)
  ultimately show ?case by simp
qed

lemma first_match_kind:
  "first_match (priority ds) buf pos = Some (k, n) \<Longrightarrow> k \<noteq> RawText"
  by (auto simp: priority_def split: option.splits if_splits)

lemma scan_labelled:
  "(case residue of None \<Rightarrow> True
    | Some r \<Rightarrow> list_all (\<lambda>p. first_match (priority ds) buf p = None) [r..<pos]) \<Longrightarrow>
   list_all (labelled ds buf) (scan ds buf pos residue)"
proof (induction ds buf pos residue rule: scan.induct)
  case (1 ds buf pos residue)
  show ?case
  proof (cases "length buf \<le> pos")
    case True
    with "1.prems" show ?thesis
      by (cases residue) (auto simp: scan.simps labelled_def list_all_iff)
  next
    case False
    show ?thesis
    proof (cases "first_match (priority ds) buf pos")
      case None
      from "1.prems" None
      have "case Some (case residue of None \<Rightarrow> pos | Some r \<Rightarrow> r) of None \<Rightarrow> True
            | Some r \<Rightarrow> list_all (\<lambda>p. first_match (priority ds) buf p = None) [r..<pos + 1]"
        by (cases residue) (auto simp: list_all_iff less_Suc_eq)
      from "1.IH"(1) [OF False None this] False None show ?thesis
        by (simp add: scan.simps [of ds buf pos])
    next
      case (Some m)
      obtain k n where m: "m = (k, n)" by (cases m)
      from Some m have k: "k \<noteq> RawText" by (auto dest: first_match_kind)
      have rest: "list_all (labelled ds buf) (scan ds buf (pos + n) None)"
        using "1.IH"(2) [OF False Some m [symmetric]] by simp
      from Some m k have this_one: "labelled ds buf \<lparr>frag_kind = k, rawSpan = (pos, pos + n)\<rparr>"
        by (simp add: labelled_def)
      from "1.prems" have "list_all (labelled ds buf) (flush residue pos)"
        by (cases residue) (simp_all add: labelled_def)
      with rest this_one False Some m show ?thesis
        by (simp add: scan.simps [of ds buf pos])
    qed
  qed
qed

lemma separated_Cons:
  "frag_kind m \<noteq> RawText \<Longrightarrow> separated ys \<Longrightarrow> separated (m # ys)"
  by (cases ys) simp_all

lemma scan_separated: "separated (scan ds buf pos residue)"
proof (induction ds buf pos residue rule: scan.induct)
  case (1 ds buf pos residue)
  show ?case
  proof (cases "length buf \<le> pos")
    case True
    then show ?thesis
      by (cases residue) (simp_all add: scan.simps)
  next
    case False
    show ?thesis
    proof (cases "first_match (priority ds) buf pos")
      case None
      from "1.IH"(1) [OF False None] False None show ?thesis
        by (simp add: scan.simps [of ds buf pos])
    next
      case (Some m)
      obtain k n where m: "m = (k, n)" by (cases m)
      from Some m have k: "k \<noteq> RawText" by (auto dest: first_match_kind)
      have "separated (scan ds buf (pos + n) None)"
        using "1.IH"(2) [OF False Some m [symmetric]] .
      with k have "separated (\<lparr>frag_kind = k, rawSpan = (pos, pos + n)\<rparr> # scan ds buf (pos + n) None)"
        by (simp add: separated_Cons)
      with k False Some m show ?thesis
        by (cases residue) (simp_all add: scan.simps [of ds buf pos])
    qed
  qed
qed

text \<open>
  The edge cases of section 4.1: a buffer without structured content yields one \<open>RawText\<close>
  fragment that spans it, the empty buffer yields no fragment.
\<close>

lemma detect_unstructured:
  assumes "buf \<noteq> []" "list_all (\<lambda>p. first_match (priority ds) buf p = None) [0..<length buf]"
  shows "detect ds buf = [\<lparr>frag_kind = RawText, rawSpan = (0, length buf)\<rparr>]"
proof -
  have "scan ds buf pos (Some 0) = [\<lparr>frag_kind = RawText, rawSpan = (0, length buf)\<rparr>]" for pos
  proof (induction "length buf - pos" arbitrary: pos)
    case 0
    then show ?case by (simp add: scan.simps)
  next
    case (Suc d)
    then have "pos < length buf" "d = length buf - (pos + 1)" by simp_all
    with assms(2) Suc(1) [of "pos + 1"] show ?case
      by (simp add: scan.simps [of ds buf pos] list_all_iff)
  qed
  from this [of 1] assms show ?thesis
    by (simp add: detect_def scan.simps [of ds buf 0] list_all_iff)
qed

lemma detect_empty: "detect ds [] = []"
  by (simp add: detect_def scan.simps)

text \<open>
  C7. For every buffer and whatever the structured detectors report, the fragments tile
  the buffer: the spans are non-empty, start at 0, follow one another without gap or
  overlap in the order of the text and end at the end of the buffer, and their texts,
  concatenated in order, are the buffer. Every fragment has the right kind: a fragment
  of a structured kind is the match of the first detector in priority order where it
  starts, and the text at which no detector matches is kept in \<open>RawText\<close> fragments,
  which hold nothing else. No two \<open>RawText\<close> fragments follow one another: the residue
  between two matches is one fragment.
\<close>

theorem detect_covers_buffer:
  "reconstruct buf (detect ds buf) = buf
   \<and> tiles 0 (length buf) (map rawSpan (detect ds buf))
   \<and> list_all (labelled ds buf) (detect ds buf)
   \<and> separated (detect ds buf)"
proof -
  have t: "tiles 0 (length buf) (map rawSpan (detect ds buf))"
    using scan_tiles [of 0 buf None ds] by (simp add: detect_def)
  from tiles_text [OF t, of buf] have "reconstruct buf (detect ds buf) = buf"
    by (simp add: reconstruct_def comp_def)
  moreover have "list_all (labelled ds buf) (detect ds buf)"
    using scan_labelled [where residue = None and pos = 0] by (simp add: detect_def)
  ultimately show ?thesis using t by (simp add: detect_def scan_separated)
qed

theorem detect_covers_buffer_witness:
  "detect example_detectors ''ab{}c'' =
     [\<lparr>frag_kind = RawText, rawSpan = (0, 2)\<rparr>, \<lparr>frag_kind = Json, rawSpan = (2, 4)\<rparr>,
      \<lparr>frag_kind = RawText, rawSpan = (4, 5)\<rparr>]
   \<and> reconstruct ''ab{}c'' (detect example_detectors ''ab{}c'') = ''ab{}c''
   \<and> list_all (labelled example_detectors ''ab{}c'') (detect example_detectors ''ab{}c'')"
  using detect_covers_buffer [of "''ab{}c''" example_detectors]
  by (simp add: detect_def scan.simps priority_def example_detectors_def brace_detector_def)


lemma validI:
  assumes "\<And>h. n \<le> length h \<Longrightarrow> owned n h \<Longrightarrow>
    length h \<le> length (snd (m h)) \<and> take n (snd (m h)) = take n h \<and> owned n (snd (m h))
    \<and> (case fst (m h) of Inl e \<Rightarrow> True | Inr x \<Rightarrow> Q x)"
  shows "valid n m Q"
  using assms by (simp add: valid_def)

lemma validD:
  assumes "valid n m Q" "n \<le> length h" "owned n h"
  shows "length h \<le> length (snd (m h))" "take n (snd (m h)) = take n h" "owned n (snd (m h))"
    "case fst (m h) of Inl e \<Rightarrow> True | Inr x \<Rightarrow> Q x"
  using assms by (simp_all add: valid_def)

lemma valid_weaken: "valid n m P \<Longrightarrow> (\<And>x. P x \<Longrightarrow> Q x) \<Longrightarrow> valid n m Q"
  by (auto simp: valid_def split: sum.splits)

lemma valid_ret: "Q x \<Longrightarrow> valid n (ret x) Q"
  by (simp add: valid_def ret_def)

lemma valid_throw: "valid n (throw e) Q"
  by (simp add: valid_def throw_def)

lemma valid_bnd:
  assumes m: "valid n m P" and f: "\<And>x. P x \<Longrightarrow> valid n (f x) Q"
  shows "valid n (bnd m f) Q"
proof (rule validI)
  fix h :: heap
  assume n: "n \<le> length h" and o: "owned n h"
  obtain r h' where r: "m h = (r, h')" by (cases "m h")
  from validD [OF m n o] r
  have 1: "length h \<le> length h'" "take n h' = take n h" "owned n h'"
    and 2: "case r of Inl e \<Rightarrow> True | Inr x \<Rightarrow> P x"
    by simp_all
  show "length h \<le> length (snd (bnd m f h)) \<and> take n (snd (bnd m f h)) = take n h
      \<and> owned n (snd (bnd m f h)) \<and> (case fst (bnd m f h) of Inl e \<Rightarrow> True | Inr x \<Rightarrow> Q x)"
  proof (cases r)
    case (Inl e)
    with r 1 show ?thesis by (simp add: bnd_def)
  next
    case (Inr x)
    with 2 have "P x" by simp
    from 1 n have "n \<le> length h'" by simp
    from validD [OF f [OF \<open>P x\<close>] this 1(3)] Inr r 1 show ?thesis
      by (simp add: bnd_def)
  qed
qed

lemma owned_append: "n \<le> length h \<Longrightarrow> owned n h \<Longrightarrow> fresh_obj n obj \<Longrightarrow> owned n (h @ [obj])"
  by (simp add: owned_def)

lemma owned_update:
  assumes "owned n h" "n \<le> a" "fresh_obj n obj"
  shows "owned n (h[a := obj])"
proof -
  from assms(2) have "drop n (h[a := obj]) = (drop n h)[a - n := obj]"
    by (simp add: drop_update_swap)
  moreover have "set ((drop n h)[a - n := obj]) \<subseteq> insert obj (set (drop n h))"
    by (rule set_update_subset_insert)
  ultimately show ?thesis
    using assms(1,3) by (auto simp: owned_def list_all_iff)
qed

lemma owned_nth:
  assumes "owned n h" "n \<le> a" "a < length h"
  shows "fresh_obj n (h ! a)"
proof -
  from assms(2,3) have "(drop n h) ! (a - n) = h ! a" "a - n < length (drop n h)"
    by simp_all
  then have "h ! a \<in> set (drop n h)"
    by (metis nth_mem)
  with assms(1) show ?thesis by (simp add: owned_def list_all_iff)
qed

lemma valid_alloc: "fresh_obj n obj \<Longrightarrow> valid n (alloc obj) (\<lambda>a. n \<le> a)"
  by (simp add: valid_def alloc_def owned_append)

lemma valid_store: "n \<le> a \<Longrightarrow> fresh_obj n obj \<Longrightarrow> valid n (store a obj) (\<lambda>u. True)"
  by (simp add: valid_def store_def owned_update)

lemma valid_load: "valid n (load a) (\<lambda>obj. if n \<le> a then fresh_obj n obj else True)"
  by (simp add: valid_def load_def owned_nth)

lemma valid_for_each: "(\<And>x. valid n (f x) (\<lambda>u. True)) \<Longrightarrow> valid n (for_each f xs) (\<lambda>u. True)"
  by (induction xs) (auto intro!: valid_ret valid_bnd)

lemma valid_map_each:
  assumes "\<And>x. valid n (f x) Q"
  shows "valid n (map_each f xs) (list_all Q)"
proof (induction xs)
  case Nil
  show ?case by (simp add: valid_ret)
next
  case (Cons x xs)
  show ?case
    unfolding map_each.simps
  proof (rule valid_bnd [OF assms])
    fix y
    assume y: "Q y"
    show "valid n (bnd (map_each f xs) (\<lambda>ys. ret (y # ys))) (list_all Q)"
    proof (rule valid_bnd [OF Cons])
      fix ys
      assume "list_all Q ys"
      with y show "valid n (ret (y # ys)) (list_all Q)" by (simp add: valid_ret)
    qed
  qed
qed

lemma fresh_array: "fresh_obj n (ArrayObj vs) \<longleftrightarrow> list_all (fresh_val n) vs"
proof (induction vs)
  case Nil
  show ?case by (simp add: fresh_obj_def)
next
  case (Cons v vs)
  then show ?case by (cases v) (simp_all add: fresh_obj_def)
qed

lemma fresh_dict:
  "fresh_obj n (DictObj ps p) \<longleftrightarrow>
     list_all (\<lambda>b. n \<le> b) (map snd ps) \<and> list_all (\<lambda>b. n \<le> b) (opt_refs p)"
  by (simp add: fresh_obj_def)

lemma fresh_plain [simp]:
  "fresh_obj n (NormObj f)" "fresh_obj n (ChangeObj c)" "fresh_obj n (TimelineObj t)"
  "fresh_obj n (RawObj r)"
  by (simp_all add: fresh_obj_def)

lemma fresh_refs: "list_all (fresh_val n) (map Ref rs) \<longleftrightarrow> list_all (\<lambda>b. n \<le> b) rs"
  by (induction rs) simp_all

lemma list_all_update:
  "list_all P (map snd ps) \<Longrightarrow> P v \<Longrightarrow> list_all P (map snd (AList.update k v ps))"
  by (induction ps) auto

lemma list_all_map_of:
  "list_all P (map snd ps) \<Longrightarrow> map_of ps k = Some a \<Longrightarrow> P a"
  by (induction ps) (auto split: if_splits)

lemma valid_read_array:
  "valid n (read_array a) (\<lambda>vs. if n \<le> a then list_all (fresh_val n) vs else True)"
  unfolding read_array_def
  by (rule valid_bnd [OF valid_load])
     (auto intro!: valid_ret valid_throw simp: fresh_array split: hobj.split)

lemma valid_read_dict:
  "valid n (read_dict a)
     (\<lambda>(ps, p). if n \<le> a then fresh_obj n (DictObj ps p) else True)"
  unfolding read_dict_def
  by (rule valid_bnd [OF valid_load])
     (auto intro!: valid_ret valid_throw split: hobj.split)

lemma valid_array_push:
  assumes "n \<le> arr" "fresh_val n v"
  shows "valid n (array_push arr v) (\<lambda>u. True)"
  unfolding array_push_def
proof (rule valid_bnd [OF valid_read_array])
  fix vs
  assume "if n \<le> arr then list_all (fresh_val n) vs else True"
  with assms have "fresh_obj n (ArrayObj (vs @ [v]))" by (simp add: fresh_array)
  with assms(1) show "valid n (store arr (ArrayObj (vs @ [v]))) (\<lambda>u. True)"
    by (rule valid_store)
qed

lemma valid_read_descriptor: "valid n (read_descriptor v) (\<lambda>f. True)"
  unfolding read_descriptor_def
  by (cases v)
     (auto intro!: valid_bnd [OF valid_load] valid_ret valid_throw split: hobj.split)

lemma valid_normalizeFieldsArray_h: "valid n (normalizeFieldsArray_h flds) (\<lambda>a. n \<le> a)"
proof (cases flds)
  case None
  then show ?thesis
    by (simp add: normalizeFieldsArray_h_def valid_alloc fresh_array)
next
  case (Some a)
  have e: "valid n (bnd (read_descriptor v) (\<lambda>f. alloc (NormObj f))) (\<lambda>b. n \<le> b)" for v
    by (rule valid_bnd [OF valid_read_descriptor]) (simp add: valid_alloc)
  show ?thesis
    unfolding normalizeFieldsArray_h_def Some option.case
  proof (rule valid_bnd [OF valid_read_array], rule valid_bnd [OF valid_map_each [OF e]])
    fix vs rs
    assume "list_all ((\<le>) n) rs"
    then show "valid n (alloc (ArrayObj (map Ref rs))) ((\<le>) n)"
      by (intro valid_alloc) (simp add: fresh_array fresh_refs)
  qed
qed

lemma valid_set_prop_h:
  assumes "n \<le> m" "n \<le> v"
  shows "valid n (set_prop_h m k v) (\<lambda>u. True)"
  unfolding set_prop_h_def
proof (rule valid_bnd [OF valid_read_dict])
  fix x :: "(string \<times> addr) list \<times> addr option"
  assume x: "case x of (ps, p) \<Rightarrow> if n \<le> m then fresh_obj n (DictObj ps p) else True"
  obtain ps p where xp: "x = (ps, p)" by (cases x)
  with x assms have "fresh_obj n (if k = ''__proto__'' then DictObj ps (Some v)
      else DictObj (AList.update k v ps) p)"
    by (simp add: fresh_dict list_all_update)
  with assms(1) xp
  show "valid n (case x of (ps, p) \<Rightarrow> store m (if k = ''__proto__'' then DictObj ps (Some v)
      else DictObj (AList.update k v ps) p)) (\<lambda>u. True)"
    by (simp add: valid_store)
qed

lemma valid_store_copy: "n \<le> m \<Longrightarrow> valid n (store_copy m v) (\<lambda>u. True)"
  unfolding store_copy_def
  by (rule valid_bnd [OF valid_read_descriptor], rule valid_bnd [OF valid_alloc])
     (simp_all add: valid_set_prop_h)

lemma valid_buildFieldMap_h: "valid n (buildFieldMap_h flds) (\<lambda>m. n \<le> m)"
  unfolding buildFieldMap_h_def
proof (rule valid_bnd [OF valid_alloc])
  show "fresh_obj n (DictObj [] None)" by (simp add: fresh_dict)
next
  fix m
  assume m: "n \<le> m"
  show "valid n (bnd (normalizeFieldsArray_h flds) (\<lambda>nf. bnd (read_array nf)
      (\<lambda>vs. bnd (for_each (store_copy m) vs) (\<lambda>u. ret m)))) ((\<le>) n)"
    by (rule valid_bnd [OF valid_normalizeFieldsArray_h], rule valid_bnd [OF valid_read_array],
        rule valid_bnd [OF valid_for_each [OF valid_store_copy [OF m]]], rule valid_ret, rule m)
qed

lemma fresh_map_of:
  "list_all ((\<le>) n) (map snd ps) \<Longrightarrow> map_of ps k = Some a \<Longrightarrow> (n::nat) \<le> a"
  by (rule list_all_map_of)

lemma valid_lookup_h:
  assumes ps: "list_all ((\<le>) n) (map snd ps)" and p: "list_all ((\<le>) n) (opt_refs p)"
  shows "valid n (lookup_h ps p k) (fresh_val n)"
proof (cases "map_of ps k")
  case (Some a)
  from fresh_map_of [OF ps Some] Some show ?thesis
    by (simp add: lookup_h_def valid_ret)
next
  case None
  show ?thesis
  proof (cases p)
    case None
    with \<open>map_of ps k = None\<close> show ?thesis by (simp add: lookup_h_def valid_ret)
  next
    case (Some q)
    with p have "n \<le> q" by simp
    with Some \<open>map_of ps k = None\<close> show ?thesis
      by (auto simp: lookup_h_def intro!: valid_ret valid_bnd [OF valid_read_descriptor])
  qed
qed

lemma valid_get_prop_h:
  assumes "n \<le> m"
  shows "valid n (get_prop_h m k) (fresh_val n)"
  unfolding get_prop_h_def
  by (rule valid_bnd [OF valid_read_dict])
     (use assms in \<open>auto simp: fresh_dict intro!: valid_lookup_h\<close>)

lemma valid_object_keys_h: "valid n (object_keys_h m) (\<lambda>ks. True)"
  unfolding object_keys_h_def
  by (rule valid_bnd [OF valid_read_dict]) (auto intro!: valid_ret)

lemma valid_get_type_h: "valid n (get_type_h v) (\<lambda>t. True)"
  unfolding get_type_h_def
  by (cases v)
     (auto intro!: valid_bnd [OF valid_read_descriptor] valid_ret valid_throw split: sum.split)

lemma valid_get_nullable_h: "valid n (get_nullable_h v) (\<lambda>t. True)"
  unfolding get_nullable_h_def
  by (cases v)
     (auto intro!: valid_bnd [OF valid_read_descriptor] valid_ret valid_throw split: sum.split)

lemma valid_compare_h:
  assumes "n \<le> changed_arr" "n \<le> unchanged_arr" "fresh_val n b"
  shows "valid n (compare_h changed_arr unchanged_arr name a b) (\<lambda>u. True)"
  unfolding compare_h_def Let_def
  by (rule valid_bnd [OF valid_get_type_h], rule valid_bnd [OF valid_get_type_h],
      rule valid_bnd [OF valid_get_nullable_h], rule valid_bnd [OF valid_get_nullable_h])
     (auto intro!: valid_bnd [OF valid_alloc] valid_array_push assms)

lemma valid_classify_h:
  assumes "n \<le> oldMap" "n \<le> newMap"
    and "n \<le> added_arr" "n \<le> removed_arr" "n \<le> changed_arr" "n \<le> unchanged_arr"
  shows "valid n
    (classify_h oldMap newMap added_arr removed_arr changed_arr unchanged_arr name)
    (\<lambda>u. True)"
  unfolding classify_h_def
  by (rule valid_bnd [OF valid_get_prop_h [OF assms(1)]],
      rule valid_bnd [OF valid_get_prop_h [OF assms(2)]])
     (auto intro!: valid_array_push valid_compare_h assms)

lemma valid_get_fields: "valid n (get_fields s) (\<lambda>a. True)"
  unfolding get_fields_def
  by (rule valid_bnd [OF valid_load]) (auto intro!: valid_ret split: hobj.split)

lemma fresh_empty_array: "fresh_obj n (ArrayObj [])"
  by (simp add: fresh_array)

lemma valid_diffSchemas_h: "valid n (diffSchemas_h oldSchema newSchema) (\<lambda>d. n \<le> d)"
  unfolding diffSchemas_h_def
proof (rule valid_bnd [OF valid_get_fields], rule valid_bnd [OF valid_buildFieldMap_h],
    rule valid_bnd [OF valid_get_fields], rule valid_bnd [OF valid_buildFieldMap_h],
    rule valid_bnd [OF valid_alloc [OF fresh_empty_array]],
    rule valid_bnd [OF valid_alloc [OF fresh_empty_array]],
    rule valid_bnd [OF valid_alloc [OF fresh_empty_array]],
    rule valid_bnd [OF valid_alloc [OF fresh_empty_array]],
    rule valid_bnd [OF valid_object_keys_h], rule valid_bnd [OF valid_object_keys_h])
  fix oldMap newMap added_arr removed_arr changed_arr unchanged_arr :: addr
    and ko kn :: "string list"
  assume a: "n \<le> oldMap" "n \<le> newMap" "n \<le> added_arr" "n \<le> removed_arr"
    "n \<le> changed_arr" "n \<le> unchanged_arr"
  show "valid n
     (bnd (for_each
           (classify_h oldMap newMap added_arr removed_arr changed_arr unchanged_arr)
           (array_from_set (ko @ kn)))
       (\<lambda>u. alloc (DiffObj added_arr removed_arr changed_arr unchanged_arr)))
     ((\<le>) n)"
    by (rule valid_bnd [OF valid_for_each [OF valid_classify_h [OF a]]])
       (simp add: valid_alloc fresh_obj_def a)
qed

lemma valid_is_stable_h: "valid n (is_stable_h d) (\<lambda>b. True)"
  unfolding is_stable_h_def
  by (rule valid_bnd [OF valid_load])
     (auto intro!: valid_bnd [OF valid_read_array] valid_ret valid_throw split: hobj.split)

lemma valid_diff_values: "valid n (diff_values prev cur) (\<lambda>d. True)"
  unfolding diff_values_def
  by (auto intro!: valid_weaken [OF valid_diffSchemas_h] valid_throw split: hval.split)

lemma valid_stability_loop_h: "valid n (stability_loop_h vs acc) (\<lambda>r. True)"
proof (induction vs acc rule: stability_loop_h.induct)
  case (1 prev cur rest totalChecks stableChecks)
  show ?case
    unfolding stability_loop_h.simps
    by (rule valid_bnd [OF valid_diff_values], rule valid_bnd [OF valid_is_stable_h], rule 1)
qed (simp_all add: valid_ret)

lemma valid_computeStability_h: "valid n (computeStability_h history) (\<lambda>r. True)"
  unfolding computeStability_h_def
  by (rule valid_bnd [OF valid_read_array])
     (auto intro!: valid_bnd [OF valid_stability_loop_h] valid_ret)

lemma valid_timeline_fields_h: "valid n (timeline_fields_h s) (\<lambda>a. True)"
  unfolding timeline_fields_h_def
  by (auto intro!: valid_weaken [OF valid_alloc] valid_bnd [OF valid_load] valid_ret
      simp: fresh_empty_array split: option.split hobj.split)

lemma valid_type_or_null_h: "valid n (type_or_null_h v) (\<lambda>t. True)"
  unfolding type_or_null_h_def
  by (cases v) (auto intro!: valid_bnd [OF valid_read_descriptor] valid_ret)

lemma valid_nullable_flag_h: "valid n (nullable_flag_h v) (\<lambda>t. True)"
  unfolding nullable_flag_h_def
  by (cases v) (auto intro!: valid_bnd [OF valid_read_descriptor] valid_ret)

lemma valid_timeline_of_h: "valid n (timeline_of_h fieldName sv) (\<lambda>a. n \<le> a)"
proof (cases sv)
  case (Val j)
  then show ?thesis by (simp add: timeline_of_h_def valid_throw)
next
  case (Ref sr)
  have "valid n
     (bnd (timeline_fields_h s) (\<lambda>fa.
      bnd (buildFieldMap_h (Some fa)) (\<lambda>m.
      bnd (get_prop_h m fieldName) (\<lambda>f.
      bnd (type_or_null_h f) (\<lambda>ty.
      bnd (nullable_flag_h f) (\<lambda>nu. alloc (TimelineObj (t s f ty nu))))))))
     ((\<le>) n)" for s :: version_obj and t
    by (rule valid_bnd [OF valid_timeline_fields_h], rule valid_bnd [OF valid_buildFieldMap_h],
        rule valid_bnd [OF valid_get_prop_h], assumption,
        rule valid_bnd [OF valid_type_or_null_h], rule valid_bnd [OF valid_nullable_flag_h],
        rule valid_alloc, simp)
  then show ?thesis
    unfolding timeline_of_h_def Ref hval.case
    by (intro valid_bnd [OF valid_load]) (auto intro!: valid_throw split: hobj.split)
qed

lemma valid_fieldTimeline_h: "valid n (fieldTimeline_h fieldName history) (\<lambda>a. n \<le> a)"
  unfolding fieldTimeline_h_def
proof (rule valid_bnd [OF valid_read_array], rule valid_bnd [OF valid_map_each [OF valid_timeline_of_h]])
  fix vs ts
  assume "list_all ((\<le>) n) ts"
  then show "valid n (alloc (ArrayObj (map Ref ts))) ((\<le>) n)"
    by (intro valid_alloc) (simp add: fresh_array fresh_refs)
qed

lemma valid_whole_store:
  assumes "valid (length h) m Q"
  shows "take (length h) (snd (m h)) = h \<and> owned (length h) (snd (m h)) \<and> returns m h Q"
  using validD [OF assms, of h] by (simp add: owned_def returns_def)

text \<open>
  C6. Whatever the store and the arguments, \<^verbatim>\<open>diffSchemas\<close>, \<^verbatim>\<open>computeStability\<close> and
  \<^verbatim>\<open>fieldTimeline\<close> leave every cell of the store they are started on as it is, whether
  they return or throw: the schema objects, their field lists and the descriptors in
  them are not mutated. What the functions write lies in the cells they allocate, and
  these cells hold no address of a cell of the caller: the diff and the time line that
  are returned are new objects, made of copies of the descriptors.
\<close>

theorem schema_operations_mutate_nothing:
  "take (length h) (snd (diffSchemas_h oldSchema newSchema h)) = h
   \<and> owned (length h) (snd (diffSchemas_h oldSchema newSchema h))
   \<and> returns (diffSchemas_h oldSchema newSchema) h (\<lambda>d. length h \<le> d)
   \<and> take (length h) (snd (computeStability_h history h)) = h
   \<and> take (length h) (snd (fieldTimeline_h fieldName history h)) = h
   \<and> owned (length h) (snd (fieldTimeline_h fieldName history h))
   \<and> returns (fieldTimeline_h fieldName history) h (\<lambda>t. length h \<le> t)"
  using valid_whole_store [OF valid_diffSchemas_h, of h oldSchema newSchema]
    valid_whole_store [OF valid_computeStability_h, of h history]
    valid_whole_store [OF valid_fieldTimeline_h, of h fieldName history]
  by simp


lemmas heap_defs =
  bnd_def ret_def throw_def alloc_def load_def store_def read_array_def read_dict_def
  array_push_def read_descriptor_def normalizeFieldsArray_h_def set_prop_h_def store_copy_def
  buildFieldMap_h_def lookup_h_def get_prop_h_def object_keys_h_def get_type_h_def
  get_nullable_h_def compare_h_def classify_h_def get_fields_def diffSchemas_h_def
  is_stable_h_def diff_values_def computeStability_h_def timeline_fields_h_def
  type_or_null_h_def nullable_flag_h_def timeline_of_h_def fieldTimeline_h_def
  cell_def val_at_def array_at_def change_at_def diff_at_def timeline_at_def
  example_store_def no_version_def

text \<open>
  On this store the two embeddings agree: the diff that \<open>diffSchemas_h\<close> leaves in the
  store is the diff that \<open>diffSchemas\<close> computes.
\<close>

lemma diffSchemas_h_example:
  "(case diffSchemas_h 3 8 example_store of
      (Inr d, h) \<Rightarrow> Inr (diff_at h d)
    | (Inl e, h) \<Rightarrow> Inl e) =
   diffSchemas \<lparr>schema_fields = Some [plain_field ''id'' ''string'', plain_field ''price'' ''string'']\<rparr>
     \<lparr>schema_fields = Some [plain_field ''id'' ''string'', plain_field ''price'' ''decimal'',
                             plain_field ''currency'' ''string'']\<rparr>"
  by (simp add: heap_defs eval_defs nth_append)


lemma runs_ret: "runs (ret x) h x h"
  by (simp add: runs_def ret_def)

lemma runs_ret_iff: "runs (ret x) h v h' \<longleftrightarrow> v = x \<and> h' = h"
  by (auto simp: runs_def ret_def)

lemma runs_bnd: "runs m h x h1 \<Longrightarrow> runs (f x) h1 y h2 \<Longrightarrow> runs (bnd m f) h y h2"
  by (simp add: runs_def bnd_def)

lemma runs_alloc: "runs (alloc obj) h (length h) (h @ [obj])"
  by (simp add: runs_def alloc_def)

lemma runs_load: "a < length h \<Longrightarrow> runs (load a) h (h ! a) h"
  by (simp add: runs_def load_def)

lemma runs_store: "a < length h \<Longrightarrow> runs (store a obj) h () (h[a := obj])"
  by (simp add: runs_def store_def)

lemma stableI:
  assumes "length h \<le> length h'"
    and "\<And>a. a < length h \<Longrightarrow> is_descriptor (h ! a) \<Longrightarrow> h' ! a = h ! a"
  shows "stable h h'"
  using assms by (auto simp: stable_def list_all_iff)

lemma stableD:
  assumes "stable h h'"
  shows "length h \<le> length h'" and "a < length h \<Longrightarrow> is_descriptor (h ! a) \<Longrightarrow> h' ! a = h ! a"
  using assms by (auto simp: stable_def list_all_iff)

lemma stable_refl: "stable h h"
  by (rule stableI) simp_all

lemma stable_trans:
  assumes "stable h1 h2" "stable h2 h3"
  shows "stable h1 h3"
proof (rule stableI)
  from stableD(1) [OF assms(1)] stableD(1) [OF assms(2)] show "length h1 \<le> length h3" by simp
next
  fix a
  assume a: "a < length h1" "is_descriptor (h1 ! a)"
  from stableD(2) [OF assms(1) a] have 1: "h2 ! a = h1 ! a" .
  from a stableD(1) [OF assms(1)] have "a < length h2" by simp
  from stableD(2) [OF assms(2) this] 1 a(2) show "h3 ! a = h1 ! a" by simp
qed

lemma stable_append: "stable h (h @ xs)"
  by (rule stableI) (simp_all add: nth_append)

lemma stable_update: "a < length h \<Longrightarrow> \<not> is_descriptor (h ! a) \<Longrightarrow> stable h (h[a := obj])"
  by (rule stableI) (auto simp: nth_list_update)

lemma norm_at_stable: "norm_at h a f \<Longrightarrow> stable h h' \<Longrightarrow> norm_at h' a f"
  using stableD [of h h'] by (fastforce simp: norm_at_def)

lemma desc_at_stable:
  assumes "desc_at h v f" "stable h h'"
  shows "desc_at h' v f"
proof (cases v)
  case (Val j)
  with assms(1) show ?thesis by (simp add: desc_at_def)
next
  case (Ref r)
  with assms(1) have r: "r < length h" and d: "is_descriptor (h ! r)"
    by (auto simp: desc_at_def split: hobj.splits)
  from stableD [OF assms(2)] r d have "r < length h'" "h' ! r = h ! r" by auto
  with assms(1) Ref show ?thesis by (simp add: desc_at_def)
qed

lemma dict_rel_stable:
  assumes "dict_rel h ps p m" "stable h h'"
  shows "dict_rel h' ps p m"
proof -
  have "norm_at h a f \<Longrightarrow> norm_at h' a f" for a f
    using assms(2) by (rule norm_at_stable [rotated])
  with assms(1) show ?thesis
    by (auto simp: dict_rel_def elim!: list_all2_mono option.rel_mono_strong)
qed

lemma runs_read_descriptor: "desc_at h v f \<Longrightarrow> runs (read_descriptor v) h f h"
  by (cases v)
     (auto simp: desc_at_def read_descriptor_def runs_def bnd_def load_def ret_def
        split: hobj.splits)

lemma runs_normalize_each:
  assumes "list_all2 (desc_at h) vs fs"
  shows "runs (map_each (\<lambda>v. bnd (read_descriptor v) (\<lambda>f. alloc (NormObj f))) vs) h
           [length h ..< length h + length vs] (h @ map NormObj fs)"
  using assms
proof (induction vs arbitrary: fs h)
  case Nil
  then show ?case by (simp add: runs_ret)
next
  case (Cons v vs fs')
  from Cons.prems obtain f fs where fs': "fs' = f # fs" and v: "desc_at h v f"
    and vs: "list_all2 (desc_at h) vs fs"
    by (auto simp: list_all2_Cons1)
  let ?h = "h @ [NormObj f]"
  have 1: "runs (bnd (read_descriptor v) (\<lambda>f. alloc (NormObj f))) h (length h) ?h"
    using runs_read_descriptor [OF v] runs_alloc [of "NormObj f" h]
    by (simp add: runs_def bnd_def)
  have "list_all2 (desc_at ?h) vs fs"
    using vs by (rule list_all2_mono) (rule desc_at_stable [OF _ stable_append])
  from Cons.IH [OF this]
  have 2: "runs (map_each (\<lambda>v. bnd (read_descriptor v) (\<lambda>f. alloc (NormObj f))) vs) ?h
      [Suc (length h) ..< Suc (length h) + length vs] (h @ map NormObj (f # fs))"
    by simp
  have 3: "runs (map_each (\<lambda>v. bnd (read_descriptor v) (\<lambda>f. alloc (NormObj f))) (v # vs)) h
      (length h # [Suc (length h) ..< Suc (length h) + length vs]) (h @ map NormObj (f # fs))"
    using 1 2 by (simp add: runs_def bnd_def ret_def)
  have "[length h ..< Suc (length h) + length vs]
      = length h # [Suc (length h) ..< Suc (length h) + length vs]"
    by (rule upt_conv_Cons) simp
  moreover have "length h + length (v # vs) = Suc (length h) + length vs" by simp
  ultimately have 4: "length h # [Suc (length h) ..< Suc (length h) + length vs]
      = [length h ..< length h + length (v # vs)]"
    by (simp only:)
  from 3 show ?case unfolding 4 fs' .
qed

lemma runs_read_array: "a < length h \<Longrightarrow> h ! a = ArrayObj vs \<Longrightarrow> runs (read_array a) h vs h"
  by (simp add: runs_def read_array_def bnd_def load_def ret_def)

lemma runs_read_dict:
  "a < length h \<Longrightarrow> h ! a = DictObj ps p \<Longrightarrow> runs (read_dict a) h (ps, p) h"
  by (simp add: runs_def read_dict_def bnd_def load_def ret_def)

lemma runs_normalizeFieldsArray_h:
  assumes "fields_at h flds fs"
  shows "runs (normalizeFieldsArray_h flds) h (length h + length fs)
           (h @ map NormObj fs @ [ArrayObj (map Ref [length h ..< length h + length fs])])"
proof (cases flds)
  case None
  with assms show ?thesis
    using runs_alloc [of "ArrayObj []" h]
    by (simp add: fields_at_def normalizeFieldsArray_h_def)
next
  case (Some a)
  with assms obtain vs where a: "a < length h" "h ! a = ArrayObj vs"
    and vs: "list_all2 (desc_at h) vs fs"
    by (auto simp: fields_at_def split: hobj.splits)
  from vs have l: "length vs = length fs" by (rule list_all2_lengthD)
  let ?rs = "[length h ..< length h + length fs]"
  have 1: "runs (map_each (\<lambda>v. bnd (read_descriptor v) (\<lambda>f. alloc (NormObj f))) vs) h
      ?rs (h @ map NormObj fs)"
    using runs_normalize_each [OF vs] l by simp
  have 2: "runs (alloc (ArrayObj (map Ref ?rs))) (h @ map NormObj fs) (length h + length fs)
      (h @ map NormObj fs @ [ArrayObj (map Ref ?rs)])"
    using runs_alloc [of "ArrayObj (map Ref ?rs)" "h @ map NormObj fs"] by simp
  have "runs (bnd (read_array a) (\<lambda>vs.
      bnd (map_each (\<lambda>v. bnd (read_descriptor v) (\<lambda>f. alloc (NormObj f))) vs) (\<lambda>rs.
      alloc (ArrayObj (map Ref rs))))) h (length h + length fs)
      (h @ map NormObj fs @ [ArrayObj (map Ref ?rs)])"
    by (rule runs_bnd [OF runs_read_array [OF a]], rule runs_bnd [OF 1], rule 2)
  with Some show ?thesis
    by (simp add: normalizeFieldsArray_h_def)
qed

lemma list_all2_update:
  assumes "list_all2 (\<lambda>x y. fst x = fst y \<and> P (snd x) (snd y)) xs ys" and "P c f"
  shows "list_all2 (\<lambda>x y. fst x = fst y \<and> P (snd x) (snd y))
           (AList.update k c xs) (AList.update k f ys)"
  using assms by (induction xs ys rule: list_all2_induct) auto

lemma dict_rel_update:
  assumes "dict_rel h ps p m" "norm_at h c f"
  shows "dict_rel h (AList.update k c ps) p (m\<lparr>own := AList.update k f (own m)\<rparr>)"
  using assms by (simp add: dict_rel_def list_all2_update)

lemma dict_rel_proto:
  assumes "dict_rel h ps p m" "norm_at h c f"
  shows "dict_rel h ps (Some c) (m\<lparr>proto := Some f\<rparr>)"
  using assms by (simp add: dict_rel_def)

lemma runs_set_prop_h:
  assumes m: "a < length h" "h ! a = DictObj ps p"
  shows "runs (set_prop_h a k c) h ()
           (h[a := (if k = ''__proto__'' then DictObj ps (Some c)
                    else DictObj (AList.update k c ps) p)])"
  unfolding set_prop_h_def
  by (rule runs_bnd [OF runs_read_dict [OF m]]) (simp add: runs_store m)

text \<open>The loop of \<open>buildFieldMap_h\<close> fills the dictionary at \<open>a\<close> as \<open>fill\<close> does.\<close>

lemma runs_store_copies:
  assumes "list_all2 (desc_at h) vs fs"
    and "a < length h" "h ! a = DictObj ps p" "dict_rel h ps p m"
  shows "\<exists>h' ps' p'. runs (for_each (store_copy a) vs) h () h'
           \<and> h' ! a = DictObj ps' p' \<and> dict_rel h' ps' p' (fill m fs) \<and> stable h h'"
  using assms
proof (induction vs arbitrary: fs h ps p m)
  case Nil
  then show ?case
    by (intro exI [of _ h] exI [of _ ps] exI [of _ p])
       (simp add: fill_def runs_ret stable_refl)
next
  case (Cons v vs fs')
  from Cons.prems(1) obtain f fs where fs': "fs' = f # fs" and v: "desc_at h v f"
    and vs: "list_all2 (desc_at h) vs fs"
    by (auto simp: list_all2_Cons1)
  let ?c = "length h"
  let ?h1 = "h @ [NormObj f]"
  let ?d = "if f_name f = ''__proto__'' then DictObj ps (Some ?c)
            else DictObj (AList.update (f_name f) ?c ps) p"
  let ?h2 = "?h1[a := ?d]"
  let ?m = "set_prop m (f_name f) f"
  from Cons.prems have a1: "a < length ?h1" "?h1 ! a = DictObj ps p"
    by (simp_all add: nth_append)
  have 1: "runs (store_copy a v) h () ?h2"
    using runs_read_descriptor [OF v] runs_alloc [of "NormObj f" h]
      runs_set_prop_h [OF a1, of "f_name f" ?c]
    by (simp add: store_copy_def runs_def bnd_def)
  have s1: "stable h ?h1" by (rule stable_append)
  have s2: "stable ?h1 ?h2" using a1 by (intro stable_update) simp_all
  note s = stable_trans [OF s1 s2]
  have c: "norm_at ?h2 ?c f"
    using Cons.prems(2) by (simp add: norm_at_def nth_list_update)
  have r: "dict_rel ?h2 ps p m" by (rule dict_rel_stable [OF Cons.prems(4) s])
  have d: "?h2 ! a = ?d" using a1 by simp
  have "\<exists>ps' p'. ?h2 ! a = DictObj ps' p' \<and> dict_rel ?h2 ps' p' ?m"
  proof (cases "f_name f = ''__proto__''")
    case True
    with d dict_rel_proto [OF r c] show ?thesis by (auto simp: set_prop_def)
  next
    case False
    with d dict_rel_update [OF r c, of "f_name f"] show ?thesis by (auto simp: set_prop_def)
  qed
  then obtain ps1 p1 where d1: "?h2 ! a = DictObj ps1 p1" "dict_rel ?h2 ps1 p1 ?m" by blast
  have "list_all2 (desc_at ?h2) vs fs"
    using vs by (rule list_all2_mono) (rule desc_at_stable [OF _ s])
  moreover from a1 have "a < length ?h2" by simp
  ultimately obtain h' ps' p' where h': "runs (for_each (store_copy a) vs) ?h2 () h'"
    "h' ! a = DictObj ps' p'" "dict_rel h' ps' p' (fill ?m fs)" "stable ?h2 h'"
    using Cons.IH [OF _ _ d1] by blast
  have "fill m (f # fs) = fill ?m fs" by (simp add: fill_def)
  with runs_bnd [OF 1 h'(1)] h'(2,3) stable_trans [OF s h'(4)] fs' show ?case
    by auto
qed

lemma fields_at_stable:
  assumes "fields_at h flds fs" "stable h h'"
    and same: "\<And>a. flds = Some a \<Longrightarrow> h' ! a = h ! a"
  shows "fields_at h' flds fs"
proof (cases flds)
  case None
  with assms(1) show ?thesis by (simp add: fields_at_def)
next
  case (Some a)
  with assms(1) obtain vs where a: "a < length h" "h ! a = ArrayObj vs"
    and vs: "list_all2 (desc_at h) vs fs"
    by (auto simp: fields_at_def split: hobj.splits)
  from vs have "list_all2 (desc_at h') vs fs"
    by (rule list_all2_mono) (rule desc_at_stable [OF _ assms(2)])
  with a same [OF Some] stableD(1) [OF assms(2)] Some show ?thesis
    by (simp add: fields_at_def)
qed

lemma fields_at_append: "fields_at h flds fs \<Longrightarrow> fields_at (h @ xs) flds fs"
  by (rule fields_at_stable [OF _ stable_append])
     (auto simp: fields_at_def nth_append split: option.splits)

lemma desc_at_copies:
  "list_all2 (desc_at (h @ map NormObj fs @ xs)) (map Ref [length h ..< length h + length fs]) fs"
  by (auto simp: list_all2_conv_all_nth desc_at_def nth_append)

lemma runs_buildFieldMap_h:
  assumes "fields_at h flds fs"
  shows "\<exists>h' ps p. runs (buildFieldMap_h flds) h (length h) h' \<and> length h < length h'
           \<and> h' ! length h = DictObj ps p \<and> dict_rel h' ps p (fill empty_object fs)
           \<and> stable h h'"
proof -
  let ?m = "length h"
  let ?h1 = "h @ [DictObj [] None]"
  let ?vs = "map Ref [length ?h1 ..< length ?h1 + length fs]"
  let ?h2 = "?h1 @ map NormObj fs @ [ArrayObj ?vs]"
  have 1: "runs (alloc (DictObj [] None)) h ?m ?h1" by (rule runs_alloc)
  have 2: "runs (normalizeFieldsArray_h flds) ?h1 (length ?h1 + length fs) ?h2"
    by (rule runs_normalizeFieldsArray_h [OF fields_at_append [OF assms]])
  have 3: "runs (read_array (length ?h1 + length fs)) ?h2 ?vs ?h2"
    by (rule runs_read_array) (simp_all add: nth_append)
  have d: "list_all2 (desc_at ?h2) ?vs fs" by (rule desc_at_copies)
  have m: "?m < length ?h2" "?h2 ! ?m = DictObj [] None"
    by (simp_all add: nth_append)
  have r: "dict_rel ?h2 [] None empty_object"
    by (simp add: dict_rel_def empty_object_def)
  from runs_store_copies [OF d m r]
  obtain h' ps' p' where h': "runs (for_each (store_copy ?m) ?vs) ?h2 () h'"
    "h' ! ?m = DictObj ps' p'" "dict_rel h' ps' p' (fill empty_object fs)" "stable ?h2 h'"
    by blast
  have "runs (buildFieldMap_h flds) h ?m h'"
    using 1 2 3 h'(1) by (simp add: buildFieldMap_h_def runs_def bnd_def ret_def)
  moreover have "stable h ?h2"
    using stable_append [of h "DictObj [] None # map NormObj fs @ [ArrayObj ?vs]"] by simp
  then have "stable h h'" using h'(4) by (rule stable_trans)
  moreover from stableD(1) [OF h'(4)] have "?m < length h'" by simp
  ultimately show ?thesis using h'(2,3) by blast
qed

lemma list_all2_map_of:
  assumes "list_all2 (\<lambda>x y. fst x = fst y \<and> P (snd x) (snd y)) xs ys"
  shows "rel_option P (map_of xs k) (map_of ys k)"
  using assms by (induction xs ys rule: list_all2_induct) auto

lemma dict_rel_map_of:
  "dict_rel h ps p m \<Longrightarrow> rel_option (norm_at h) (map_of ps k) (map_of (own m) k)"
  by (simp add: dict_rel_def list_all2_map_of)

lemma dict_rel_keys: "dict_rel h ps p m \<Longrightarrow> map fst ps = map fst (own m)"
  unfolding dict_rel_def
  by (auto simp: list_all2_conv_all_nth intro!: nth_equalityI)

lemma val_at_norm: "norm_at h a f \<Longrightarrow> val_at h (Ref a) = FieldObj f"
  by (simp add: norm_at_def val_at_def cell_def)

lemma good_val_norm: "norm_at h a f \<Longrightarrow> good_val h (Ref a)"
  by (auto simp: good_val_def)

lemma desc_at_norm: "norm_at h a f \<Longrightarrow> desc_at h (Ref a) f"
  by (simp add: norm_at_def desc_at_def)

lemma runs_get_prop_h:
  assumes a: "a < length h" "h ! a = DictObj ps p" and r: "dict_rel h ps p m"
  shows "\<exists>v. runs (get_prop_h a k) h v h \<and> val_at h v = get_prop m k \<and> good_val h v"
proof -
  have "\<exists>v. runs (lookup_h ps p k) h v h \<and> val_at h v = get_prop m k \<and> good_val h v"
  proof (cases "map_of ps k")
    case (Some c)
    with dict_rel_map_of [OF r, of k] obtain f where f: "map_of (own m) k = Some f" "norm_at h c f"
      by (auto simp: option_rel_Some1)
    with Some show ?thesis
      by (auto simp: lookup_h_def runs_ret_iff get_prop_def val_at_norm good_val_norm)
  next
    case None
    with dict_rel_map_of [OF r, of k] have n: "map_of (own m) k = None" by simp
    show ?thesis
    proof (cases p)
      case None
      with r have "proto m = None" by (simp add: dict_rel_def)
      with None n \<open>map_of ps k = None\<close> show ?thesis
        by (auto simp: lookup_h_def runs_ret_iff get_prop_def val_at_def good_val_def)
    next
      case (Some q)
      with r obtain pf where pf: "proto m = Some pf" "norm_at h q pf"
        by (auto simp: dict_rel_def option_rel_Some1)
      show ?thesis
      proof (cases "k = ''__proto__''")
        case True
        with Some pf n \<open>map_of ps k = None\<close> show ?thesis
          by (auto simp: lookup_h_def runs_ret_iff get_prop_def val_at_norm good_val_norm)
      next
        case False
        with Some pf n \<open>map_of ps k = None\<close>
          runs_read_descriptor [OF desc_at_norm [OF pf(2)]]
        show ?thesis
          by (auto simp: lookup_h_def runs_def bnd_def ret_def get_prop_def val_at_def
              good_val_def split: option.splits)
      qed
    qed
  qed
  with runs_read_dict [OF a] show ?thesis
    by (auto simp: get_prop_h_def runs_def bnd_def)
qed

lemma runs_object_keys_h:
  assumes "a < length h" "h ! a = DictObj ps p" "dict_rel h ps p m"
  shows "runs (object_keys_h a) h (object_keys m) h"
  using runs_read_dict [OF assms(1,2)] dict_rel_keys [OF assms(3)]
  by (simp add: object_keys_h_def object_keys_def runs_def bnd_def ret_def)

lemma truthy_h_val_at:
  assumes "good_val h v"
  shows "truthy_h v = truthy (val_at h v)"
proof (cases v)
  case (Val j)
  then show ?thesis by (simp add: val_at_def)
next
  case (Ref r)
  with assms obtain f where "norm_at h r f" by (auto simp: good_val_def)
  with Ref show ?thesis by (simp add: val_at_norm)
qed

lemma runs_get_type_h:
  assumes "good_val h v" "get_type (val_at h v) = Inr t"
  shows "runs (get_type_h v) h t h"
proof (cases v)
  case (Val j)
  with assms(2) show ?thesis by (simp add: get_type_h_def val_at_def runs_ret)
next
  case (Ref r)
  with assms(1) obtain f where f: "norm_at h r f" by (auto simp: good_val_def)
  with assms(2) Ref runs_read_descriptor [OF desc_at_norm [OF f]] show ?thesis
    by (auto simp: get_type_h_def val_at_norm runs_def bnd_def ret_def)
qed

lemma runs_get_nullable_h:
  assumes "good_val h v" "get_nullable (val_at h v) = Inr t"
  shows "runs (get_nullable_h v) h t h"
proof (cases v)
  case (Val j)
  with assms(2) show ?thesis by (simp add: get_nullable_h_def val_at_def runs_ret)
next
  case (Ref r)
  with assms(1) obtain f where f: "norm_at h r f" by (auto simp: good_val_def)
  with assms(2) Ref runs_read_descriptor [OF desc_at_norm [OF f]] show ?thesis
    by (auto simp: get_nullable_h_def val_at_norm runs_def bnd_def ret_def)
qed

lemma is_arrayD: "is_array h x \<Longrightarrow> x < length h \<and> h ! x = ArrayObj (array_at h x)"
  by (auto simp: is_array_def array_at_def cell_def split: hobj.splits)

lemma runs_array_push:
  assumes "is_array h x"
  shows "runs (array_push x v) h () (h[x := ArrayObj (array_at h x @ [v])])"
  using is_arrayD [OF assms]
  by (simp add: array_push_def runs_def bnd_def read_array_def load_def ret_def store_def)

lemma update_array_effect:
  assumes "is_array h x"
  shows "val_at (h[x := ArrayObj xs]) w = val_at h w"
    and "change_at (h[x := ArrayObj xs]) w = change_at h w"
    and "array_at (h[x := ArrayObj xs]) y = (if y = x then xs else array_at h y)"
    and "is_array (h[x := ArrayObj xs]) y = is_array h y"
    and "in_store (h[x := ArrayObj xs]) w = in_store h w"
    and "stable h (h[x := ArrayObj xs])"
proof -
  note x = is_arrayD [OF assms]
  show "val_at (h[x := ArrayObj xs]) w = val_at h w"
    using x by (cases w) (auto simp: val_at_def cell_def nth_list_update)
  show "change_at (h[x := ArrayObj xs]) w = change_at h w"
    using x by (cases w) (auto simp: change_at_def cell_def nth_list_update)
  show "array_at (h[x := ArrayObj xs]) y = (if y = x then xs else array_at h y)"
    using x by (auto simp: array_at_def cell_def nth_list_update)
  show "is_array (h[x := ArrayObj xs]) y = is_array h y"
    using x by (auto simp: is_array_def nth_list_update)
  show "in_store (h[x := ArrayObj xs]) w = in_store h w"
    by (cases w) (simp_all add: in_store_def)
  show "stable h (h[x := ArrayObj xs])"
    using x by (intro stable_update) simp_all
qed

lemma is_dict_stable_update:
  assumes "is_dict h a m" "is_array h x"
  shows "is_dict (h[x := ArrayObj xs]) a m"
proof -
  from assms(1) obtain ps p where a: "a < length h" "h ! a = DictObj ps p" "dict_rel h ps p m"
    by (auto simp: is_dict_def)
  from is_arrayD [OF assms(2)] a(2) have "a \<noteq> x" by auto
  with a dict_rel_stable [OF a(3) update_array_effect(6) [OF assms(2)]] show ?thesis
    by (auto simp: is_dict_def)
qed

lemma append_effect:
  assumes "\<not> is_descriptor obj"
  shows "val_at (h @ [obj]) w = val_at h w"
    and "in_store h w \<Longrightarrow> change_at (h @ [obj]) w = change_at h w"
    and "y < length h \<Longrightarrow> array_at (h @ [obj]) y = array_at h y"
    and "is_array h y \<Longrightarrow> is_array (h @ [obj]) y"
    and "in_store h w \<Longrightarrow> in_store (h @ [obj]) w"
    and "is_dict h a m \<Longrightarrow> is_dict (h @ [obj]) a m"
proof -
  show "val_at (h @ [obj]) w = val_at h w"
    using assms by (cases w; cases obj) (auto simp: val_at_def cell_def nth_append)
  show "in_store h w \<Longrightarrow> change_at (h @ [obj]) w = change_at h w"
    by (cases w) (auto simp: change_at_def cell_def nth_append in_store_def)
  show "y < length h \<Longrightarrow> array_at (h @ [obj]) y = array_at h y"
    by (auto simp: array_at_def cell_def nth_append)
  show "is_array h y \<Longrightarrow> is_array (h @ [obj]) y"
    by (auto simp: is_array_def nth_append)
  show "in_store h w \<Longrightarrow> in_store (h @ [obj]) w"
    by (cases w) (auto simp: in_store_def)
  show "is_dict h a m \<Longrightarrow> is_dict (h @ [obj]) a m"
    using dict_rel_stable [OF _ stable_append [of h "[obj]"]]
    by (fastforce simp: is_dict_def nth_append)
qed

lemma loop_inv_push:
  assumes inv: "loop_inv h oa na om nm a r c u d" and x: "x = a \<or> x = r \<or> x = u"
  shows "loop_inv (h[x := ArrayObj (array_at h x @ [v])]) oa na om nm a r c u
           \<lparr>added = added d @ (if x = a then [val_at h v] else []),
            removed = removed d @ (if x = r then [val_at h v] else []),
            changed = changed d,
            unchanged = unchanged d @ (if x = u then [val_at h v] else [])\<rparr>"
proof -
  from inv have arr: "is_array h a" "is_array h r" "is_array h c" "is_array h u"
    and dist: "distinct [a, r, c, u]"
    and dict: "is_dict h oa om" "is_dict h na nm"
    and refs: "list_all (in_store h) (array_at h c)"
    and d: "d = groups_at h a r c u"
    by (simp_all add: loop_inv_def)
  from x arr have ax: "is_array h x" by auto
  from x dist have xc: "c \<noteq> x" by auto
  note eff = update_array_effect [OF ax]
  have "is_dict (h[x := ArrayObj (array_at h x @ [v])]) oa om"
    "is_dict (h[x := ArrayObj (array_at h x @ [v])]) na nm"
    using dict ax by (simp_all add: is_dict_stable_update)
  moreover have "list_all (in_store (h[x := ArrayObj (array_at h x @ [v])]))
                   (array_at (h[x := ArrayObj (array_at h x @ [v])]) c)"
    using refs xc by (simp add: eff list_all_iff)
  moreover have fn: "change_at (h[x := ArrayObj (array_at h x @ [v])]) = change_at h"
    "val_at (h[x := ArrayObj (array_at h x @ [v])]) = val_at h"
    by (rule ext, simp add: eff)+
  moreover have "groups_at (h[x := ArrayObj (array_at h x @ [v])]) a r c u
                 = \<lparr>added = added d @ (if x = a then [val_at h v] else []),
                    removed = removed d @ (if x = r then [val_at h v] else []),
                    changed = changed d,
                    unchanged = unchanged d @ (if x = u then [val_at h v] else [])\<rparr>"
    using xc dist x by (auto simp: d groups_at_def eff(3) fn)
  ultimately show ?thesis
    using arr dist by (simp add: loop_inv_def eff)
qed

lemma loop_inv_push_change:
  assumes inv: "loop_inv h oa na om nm a r c u d"
  shows "loop_inv ((h @ [ChangeObj ch])[c := ArrayObj (array_at h c @ [Ref (length h)])])
           oa na om nm a r c u (d\<lparr>changed := changed d @ [ch]\<rparr>)"
proof -
  let ?h1 = "h @ [ChangeObj ch]"
  let ?xs = "array_at h c @ [Ref (length h)]"
  let ?h2 = "?h1[c := ArrayObj ?xs]"
  from inv have arr: "is_array h a" "is_array h r" "is_array h c" "is_array h u"
    and dist: "distinct [a, r, c, u]"
    and dict: "is_dict h oa om" "is_dict h na nm"
    and refs: "list_all (in_store h) (array_at h c)"
    and d: "d = groups_at h a r c u"
    by (simp_all add: loop_inv_def)
  have nd: "\<not> is_descriptor (ChangeObj ch)" by simp
  note app = append_effect [OF nd, where h = h]
  have arr1: "is_array ?h1 a" "is_array ?h1 r" "is_array ?h1 c" "is_array ?h1 u"
    using arr by (simp_all add: app)
  note eff = update_array_effect [OF arr1(3)]
  have lt: "a < length h" "r < length h" "c < length h" "u < length h"
    using arr by (simp_all add: is_array_def)
  have dict2: "is_dict ?h2 oa om" "is_dict ?h2 na nm"
    using dict arr1(3) by (auto intro!: is_dict_stable_update app)
  have new: "change_at ?h1 (Ref (length h)) = [ch]"
    by (simp add: change_at_def cell_def)
  have old: "map (change_at ?h1) (array_at h c) = map (change_at h) (array_at h c)"
    using refs by (auto simp: list_all_iff app)
  have refs2: "list_all (in_store ?h2) (array_at ?h2 c)"
    using refs by (auto simp: eff list_all_iff in_store_def split: hval.splits)
  have fn: "change_at ?h2 = change_at ?h1" "val_at ?h2 = val_at h"
    by (rule ext, simp add: eff app)+
  have "groups_at ?h2 a r c u = d\<lparr>changed := changed d @ [ch]\<rparr>"
    using dist lt by (simp add: d groups_at_def eff(3) app(3) fn new old)
  with dict2 refs2 arr1 dist show ?thesis
    by (simp add: loop_inv_def eff)
qed

lemma runs_push_change:
  assumes "is_array h c"
  shows "runs (bnd (alloc (ChangeObj ch)) (\<lambda>x. array_push c (Ref x))) h ()
           ((h @ [ChangeObj ch])[c := ArrayObj (array_at h c @ [Ref (length h)])])"
proof -
  have nd: "\<not> is_descriptor (ChangeObj ch)" by simp
  from assms have 1: "is_array (h @ [ChangeObj ch]) c"
    by (rule append_effect(4) [OF nd])
  from assms have 2: "array_at (h @ [ChangeObj ch]) c = array_at h c"
    by (simp add: append_effect(3) [OF nd] is_array_def)
  show ?thesis
    using runs_bnd [OF runs_alloc runs_array_push [OF 1]] by (simp add: 2)
qed

lemma is_dictD:
  assumes "is_dict h a m"
  obtains ps p where "a < length h" "h ! a = DictObj ps p" "dict_rel h ps p m"
  using assms by (auto simp: is_dict_def)

lemma runs_compare_h:
  assumes inv: "loop_inv h oa na om nm a r c u d"
    and va: "good_val h va" and vb: "good_val h vb"
    and cmp: "compare name (val_at h va) (val_at h vb) = Inr e"
  shows "\<exists>h'. runs (compare_h c u name va vb) h () h'
              \<and> loop_inv h' oa na om nm a r c u (push d e)"
proof -
  from cmp obtain ta tb n1 n2 where
    t: "get_type (val_at h va) = Inr ta" "get_type (val_at h vb) = Inr tb"
       "get_nullable (val_at h va) = Inr n1" "get_nullable (val_at h vb) = Inr n2"
    by (auto simp: compare_def split: sum.splits)
  let ?ds = "(if or_empty ta \<noteq> or_empty tb then [''type''] else [])
             @ (if to_bool n1 \<noteq> to_bool n2 then [''nullable''] else [])"
  let ?ch = "\<lparr>c_name = name, before = \<lparr>s_type = ta, s_nullable = n1\<rparr>,
              after = \<lparr>s_type = tb, s_nullable = n2\<rparr>, diffs = ?ds\<rparr>"
  note reads = runs_get_type_h [OF va t(1)] runs_get_type_h [OF vb t(2)]
    runs_get_nullable_h [OF va t(3)] runs_get_nullable_h [OF vb t(4)]
  from inv have arr: "is_array h c" "is_array h u" by (simp_all add: loop_inv_def)
  show ?thesis
  proof (cases "?ds = []")
    case True
    with cmp t have e: "e = Unchanged (val_at h vb)"
      by (simp add: compare_def Let_def)
    have "runs (compare_h c u name va vb) h () (h[u := ArrayObj (array_at h u @ [vb])])"
      using reads runs_array_push [OF arr(2), of vb] True
      by (simp add: compare_h_def runs_def bnd_def Let_def)
    moreover have "loop_inv (h[u := ArrayObj (array_at h u @ [vb])]) oa na om nm a r c u (push d e)"
      using loop_inv_push [OF inv, of u vb] inv
      by (auto simp: e loop_inv_def)
    ultimately show ?thesis by blast
  next
    case False
    with cmp t have e: "e = Changed ?ch"
      by (simp add: compare_def Let_def)
    have "runs (compare_h c u name va vb) h ()
            ((h @ [ChangeObj ?ch])[c := ArrayObj (array_at h c @ [Ref (length h)])])"
      using reads runs_push_change [OF arr(1), of ?ch] False
      by (simp add: compare_h_def runs_def bnd_def Let_def)
    moreover have "loop_inv ((h @ [ChangeObj ?ch])[c := ArrayObj (array_at h c @ [Ref (length h)])])
                     oa na om nm a r c u (push d e)"
      using loop_inv_push_change [OF inv, of ?ch] by (simp add: e)
    ultimately show ?thesis by blast
  qed
qed

lemma runs_classify_h:
  assumes inv: "loop_inv h oa na om nm a r c u d"
    and cl: "classify om nm name = Inr e"
  shows "\<exists>h'. runs (classify_h oa na a r c u name) h () h'
              \<and> loop_inv h' oa na om nm a r c u (push d e)"
proof -
  from inv have dict: "is_dict h oa om" "is_dict h na nm"
    and arr: "is_array h a" "is_array h r"
    by (simp_all add: loop_inv_def)
  from dict(1) obtain ps p where o: "oa < length h" "h ! oa = DictObj ps p" "dict_rel h ps p om"
    by (rule is_dictD)
  from dict(2) obtain qs q where n: "na < length h" "h ! na = DictObj qs q" "dict_rel h qs q nm"
    by (rule is_dictD)
  from runs_get_prop_h [OF o, of name] obtain va where
    va: "runs (get_prop_h oa name) h va h" "val_at h va = get_prop om name" "good_val h va"
    by blast
  from runs_get_prop_h [OF n, of name] obtain vb where
    vb: "runs (get_prop_h na name) h vb h" "val_at h vb = get_prop nm name" "good_val h vb"
    by blast
  note tr = truthy_h_val_at [OF va(3)] truthy_h_val_at [OF vb(3)]
  consider (added) "\<not> truthy (val_at h va)" "truthy (val_at h vb)"
    | (removed) "truthy (val_at h va)" "\<not> truthy (val_at h vb)"
    | (both) "truthy (val_at h va) = truthy (val_at h vb)"
    by blast
  then show ?thesis
  proof cases
    case added
    with cl va(2) vb(2) have e: "e = Added (val_at h vb)"
      by (simp add: classify_def Let_def)
    have "runs (classify_h oa na a r c u name) h () (h[a := ArrayObj (array_at h a @ [vb])])"
      using va(1) vb(1) runs_array_push [OF arr(1), of vb] added
      by (simp add: classify_h_def runs_def bnd_def tr)
    moreover have "loop_inv (h[a := ArrayObj (array_at h a @ [vb])]) oa na om nm a r c u (push d e)"
      using loop_inv_push [OF inv, of a vb] inv by (auto simp: e loop_inv_def)
    ultimately show ?thesis by blast
  next
    case removed
    with cl va(2) vb(2) have e: "e = Removed (val_at h va)"
      by (simp add: classify_def Let_def)
    have "runs (classify_h oa na a r c u name) h () (h[r := ArrayObj (array_at h r @ [va])])"
      using va(1) vb(1) runs_array_push [OF arr(2), of va] removed
      by (simp add: classify_h_def runs_def bnd_def tr)
    moreover have "loop_inv (h[r := ArrayObj (array_at h r @ [va])]) oa na om nm a r c u (push d e)"
      using loop_inv_push [OF inv, of r va] inv by (auto simp: e loop_inv_def)
    ultimately show ?thesis by blast
  next
    case both
    with cl va(2) vb(2) have "compare name (val_at h va) (val_at h vb) = Inr e"
      by (simp add: classify_def Let_def split: if_splits)
    from runs_compare_h [OF inv va(3) vb(3) this] obtain h' where
      h': "runs (compare_h c u name va vb) h () h'" "loop_inv h' oa na om nm a r c u (push d e)"
      by blast
    have "runs (classify_h oa na a r c u name) h () h'"
      using va(1) vb(1) h'(1) both
      by (auto simp: classify_h_def runs_def bnd_def tr)
    with h'(2) show ?thesis by blast
  qed
qed

lemma runs_for_each_classify_h:
  assumes "loop_inv h oa na om nm a r c u d"
    and "map (classify om nm) names = map Inr es"
  shows "\<exists>h'. runs (for_each (classify_h oa na a r c u) names) h () h'
              \<and> loop_inv h' oa na om nm a r c u (foldl push d es)"
  using assms
proof (induction names arbitrary: h d es)
  case Nil
  then show ?case by (auto simp: runs_def ret_def)
next
  case (Cons name names)
  from Cons.prems(2) obtain e es' where es: "es = e # es'"
    and e: "classify om nm name = Inr e" and rest: "map (classify om nm) names = map Inr es'"
    by (cases es) auto
  from runs_classify_h [OF Cons.prems(1) e] obtain h1 where
    h1: "runs (classify_h oa na a r c u name) h () h1" "loop_inv h1 oa na om nm a r c u (push d e)"
    by blast
  from Cons.IH [OF h1(2) rest] obtain h2 where
    h2: "runs (for_each (classify_h oa na a r c u) names) h1 () h2"
        "loop_inv h2 oa na om nm a r c u (foldl push (push d e) es')"
    by blast
  have "runs (for_each (classify_h oa na a r c u) (name # names)) h () h2"
    using h1(1) h2(1) by (simp add: runs_def bnd_def)
  with h2(2) show ?case by (auto simp: es)
qed

lemma raw_at_desc_at: "raw_at h v f \<Longrightarrow> desc_at h v (normalizeField f)"
  by (auto simp: raw_at_def desc_at_def split: hval.splits)

lemma prefixD:
  assumes "take (length h) h' = h"
  shows "length h \<le> length h'" and "i < length h \<Longrightarrow> h' ! i = h ! i"
proof -
  have "h' = h @ drop (length h) h'"
    using append_take_drop_id [of "length h" h'] assms by simp
  then obtain xs where h': "h' = h @ xs" ..
  show "length h \<le> length h'" by (simp add: h')
  show "i < length h \<Longrightarrow> h' ! i = h ! i" by (simp add: h' nth_append)
qed

lemma raw_at_prefix:
  assumes "raw_at h v f" "take (length h) h' = h"
  shows "raw_at h' v f"
proof -
  note prefixD [OF assms(2)]
  with assms(1) show ?thesis
    by (auto simp: raw_at_def split: hval.splits)
qed

lemma schema_at_prefix:
  assumes "schema_at h s sch" "take (length h) h' = h"
  shows "schema_at h' s sch"
proof -
  note le = prefixD(1) [OF assms(2)] and same = prefixD(2) [OF assms(2)]
  have raw: "list_all2 (raw_at h) vs raws \<Longrightarrow> list_all2 (raw_at h') vs raws" for vs raws
    by (erule list_all2_mono) (rule raw_at_prefix [OF _ assms(2)])
  from assms(1) le show ?thesis
    by (auto simp: schema_at_def same raw split: hobj.splits option.splits)
qed

lemma runs_get_fields:
  assumes "schema_at h s sch"
  shows "\<exists>flds. runs (get_fields s) h flds h
                \<and> fields_at h flds (normalizeFieldsArray (schema_fields sch))"
proof -
  have raw: "list_all2 (raw_at h) vs raws \<Longrightarrow> list_all2 (desc_at h) vs (map normalizeField raws)"
    for vs raws
    by (simp add: list_all2_map2) (erule list_all2_mono, rule raw_at_desc_at)
  from assms show ?thesis
    by (auto simp: schema_at_def get_fields_def runs_def bnd_def load_def ret_def fields_at_def
        normalizeFieldsArray_def raw split: hobj.splits option.splits)
qed

lemma runs_prefix:
  assumes "runs m h x h'" "valid (length h) m Q"
  shows "take (length h) h' = h"
  using valid_whole_store [OF assms(2)] assms(1) by (simp add: runs_def)

lemma is_dict_prefix:
  assumes "is_dict h a m" "stable h h'" "take (length h) h' = h"
  shows "is_dict h' a m"
proof -
  note le = prefixD(1) [OF assms(3)] and same = prefixD(2) [OF assms(3)]
  from assms(1) obtain ps p where a: "a < length h" "h ! a = DictObj ps p" "dict_rel h ps p m"
    by (rule is_dictD)
  from a le same [OF a(1)] dict_rel_stable [OF a(3) assms(2)] show ?thesis
    by (auto simp: is_dict_def)
qed

lemma runs_build:
  assumes "schema_at h s sch"
  shows "\<exists>flds h'. runs (get_fields s) h flds h \<and> runs (buildFieldMap_h flds) h (length h) h'
           \<and> length h < length h' \<and> is_dict h' (length h) (buildFieldMap (schema_fields sch))
           \<and> stable h h' \<and> take (length h) h' = h"
proof -
  from runs_get_fields [OF assms] obtain flds where
    f: "runs (get_fields s) h flds h" "fields_at h flds (normalizeFieldsArray (schema_fields sch))"
    by blast
  from runs_buildFieldMap_h [OF f(2)] obtain h' ps p where
    b: "runs (buildFieldMap_h flds) h (length h) h'" "length h < length h'"
       "h' ! length h = DictObj ps p"
       "dict_rel h' ps p (fill empty_object (normalizeFieldsArray (schema_fields sch)))"
       "stable h h'"
    by blast
  have "is_dict h' (length h) (buildFieldMap (schema_fields sch))"
    using b(2-4) by (auto simp: is_dict_def buildFieldMap_def fill_def)
  with f(1) b runs_prefix [OF b(1) valid_buildFieldMap_h] show ?thesis by blast
qed

lemma loop_inv_init:
  assumes "is_dict h oa om" "is_dict h na nm"
  shows "loop_inv (h @ [ArrayObj [], ArrayObj [], ArrayObj [], ArrayObj []]) oa na om nm
           (length h) (Suc (length h)) (Suc (Suc (length h))) (Suc (Suc (Suc (length h))))
           empty_diff"
proof -
  let ?h = "h @ [ArrayObj [], ArrayObj [], ArrayObj [], ArrayObj []]"
  have st: "stable h ?h" by (rule stable_append)
  have "is_dict ?h oa om" "is_dict ?h na nm"
    using assms by (auto intro: is_dict_prefix [OF _ st])
  then show ?thesis
    by (simp add: loop_inv_def is_array_def groups_at_def array_at_def cell_def nth_append
        empty_diff_def)
qed

lemma groups_at_append:
  assumes "loop_inv h oa na om nm a r c u d" "\<not> is_descriptor obj"
  shows "groups_at (h @ [obj]) a r c u = d"
proof -
  from assms(1) have arr: "a < length h" "r < length h" "c < length h" "u < length h"
    and refs: "list_all (in_store h) (array_at h c)"
    and d: "groups_at h a r c u = d"
    by (simp_all add: loop_inv_def is_array_def)
  note app = append_effect [OF assms(2), where h = h]
  have v: "val_at (h @ [obj]) = val_at h" by (rule ext) (simp add: app)
  have ch: "map (change_at (h @ [obj])) (array_at h c) = map (change_at h) (array_at h c)"
    using refs by (auto simp: list_all_iff app)
  show ?thesis
    using arr d by (simp add: groups_at_def app(3) v ch)
qed

text \<open>
  On a store that holds the two schemas, \<open>diffSchemas_h\<close> returns, and the diff it
  allocates, read back from the store, is the diff \<open>diffSchemas\<close> computes.
\<close>

theorem diffSchemas_h_refines:
  assumes old: "schema_at h s old" and new: "schema_at h t new"
  shows "\<exists>d h'. diffSchemas_h s t h = (Inr d, h') \<and> diffSchemas old new = Inr (diff_at h' d)"
proof -
  let ?om = "buildFieldMap (schema_fields old)"
  let ?nm = "buildFieldMap (schema_fields new)"
  from runs_build [OF old] obtain fo h1 where
    1: "runs (get_fields s) h fo h" "runs (buildFieldMap_h fo) h (length h) h1"
       "length h < length h1" "is_dict h1 (length h) ?om" "stable h h1" "take (length h) h1 = h"
    by blast
  from schema_at_prefix [OF new 1(6)] have new1: "schema_at h1 t new" .
  from runs_build [OF new1] obtain fn h2 where
    2: "runs (get_fields t) h1 fn h1" "runs (buildFieldMap_h fn) h1 (length h1) h2"
       "length h1 < length h2" "is_dict h2 (length h1) ?nm" "stable h1 h2"
       "take (length h1) h2 = h1"
    by blast
  let ?oa = "length h" and ?na = "length h1"
  let ?a = "length h2"
  let ?r = "Suc ?a"
  let ?c = "Suc ?r"
  let ?u = "Suc ?c"
  let ?h3 = "h2 @ [ArrayObj [], ArrayObj [], ArrayObj [], ArrayObj []]"
  have d2: "is_dict h2 ?oa ?om" using 1(4) 2(5,6) by (rule is_dict_prefix)
  from loop_inv_init [OF d2 2(4)] have inv3: "loop_inv ?h3 ?oa ?na ?om ?nm ?a ?r ?c ?u empty_diff" .
  have allocs: "runs (alloc (ArrayObj [])) h2 ?a (h2 @ [ArrayObj []])"
    "runs (alloc (ArrayObj [])) (h2 @ [ArrayObj []]) ?r (h2 @ [ArrayObj [], ArrayObj []])"
    "runs (alloc (ArrayObj [])) (h2 @ [ArrayObj [], ArrayObj []]) ?c
       (h2 @ [ArrayObj [], ArrayObj [], ArrayObj []])"
    "runs (alloc (ArrayObj [])) (h2 @ [ArrayObj [], ArrayObj [], ArrayObj []]) ?u ?h3"
    by (simp_all add: runs_def alloc_def)
  from inv3 have d3: "is_dict ?h3 ?oa ?om" "is_dict ?h3 ?na ?nm" by (simp_all add: loop_inv_def)
  from d3(1) have ko: "runs (object_keys_h ?oa) ?h3 (object_keys ?om) ?h3"
    by (rule is_dictD) (rule runs_object_keys_h)
  from d3(2) have kn: "runs (object_keys_h ?na) ?h3 (object_keys ?nm) ?h3"
    by (rule is_dictD) (rule runs_object_keys_h)
  let ?es = "map (the_entry ?om ?nm) (allNames ?om ?nm)"
  from runs_for_each_classify_h [OF inv3 classify_allNames] obtain h4 where
    4: "runs (for_each (classify_h ?oa ?na ?a ?r ?c ?u) (allNames ?om ?nm)) ?h3 () h4"
       "loop_inv h4 ?oa ?na ?om ?nm ?a ?r ?c ?u (foldl push empty_diff ?es)"
    by blast
  let ?h5 = "h4 @ [DiffObj ?a ?r ?c ?u]"
  have run: "diffSchemas_h s t h = (Inr (length h4), ?h5)"
    using 1(1,2) 2(1,2) allocs ko kn 4(1)
    by (simp add: diffSchemas_h_def runs_def bnd_def alloc_def allNames_def)
  have "diff_at ?h5 (length h4) = groups_at ?h5 ?a ?r ?c ?u"
    by (simp add: diff_at_def cell_def groups_at_def)
  also have "\<dots> = foldl push empty_diff ?es"
    using 4(2) by (rule groups_at_append) simp
  also have "Inr \<dots> = diffSchemas old new"
    by (simp add: diffSchemas_entries entries_def Let_def foldl_push empty_diff_def)
  finally show ?thesis using run by auto
qed

text \<open>The store of the example holds the two schemas of scenario 2.\<close>

lemma diffSchemas_h_refines_example:
  "\<exists>d h'. diffSchemas_h 3 8 example_store = (Inr d, h')
     \<and> diffSchemas
          \<lparr>schema_fields = Some [plain_field ''id'' ''string'', plain_field ''price'' ''string'']\<rparr>
          \<lparr>schema_fields = Some [plain_field ''id'' ''string'', plain_field ''price'' ''decimal'',
                                  plain_field ''currency'' ''string'']\<rparr>
        = Inr (diff_at h' d)"
  by (rule diffSchemas_h_refines)
    (simp_all add: schema_at_def raw_at_def example_store_def no_version_def)


end
